theory Spec2Isabelle
  imports Complex_Main "HOL-Library.Sublist"
begin

section \<open>Python values shared by the modules\<close>

text \<open>
  Exceptions are values. Only subclasses of \<open>Exception\<close> occur: both handlers of
  \<open>sentiment.py\<close> are \<open>except Exception\<close>. \<open>LibraryError\<close> stands for whatever the
  transformers library raises while loading or running a model.
\<close>

datatype exn =
    RuntimeError string
  | ValueError string
  | AttributeError string
  | InvalidStateError
  | TypeError string
  | LibraryError string

text \<open>
  An instance attribute that can be deleted has three states: \<open>del self.pipeline\<close>
  removes the attribute from the instance, and the class defines no attribute of that
  name, so a later read raises \<open>AttributeError\<close>.
\<close>

datatype 'a attr = Deleted | PyNone | Obj 'a

definition no_pipeline_attr :: exn where
  "no_pipeline_attr = AttributeError ''SentimentAnalyzer object has no attribute pipeline''"

text \<open>The dictionaries with the keys \<open>label\<close> and \<open>score\<close>, raw and returned.\<close>

record result =
  label :: string
  score :: real

section \<open>Strings\<close>

text \<open>
  Strings are lists of 8-bit characters, read as the code points 0 to 255.
  \<open>str.upper\<close> on these: the ASCII and Latin-1 lower-case letters move down by 32,
  the sharp s becomes two letters; the micro sign and y with diaeresis have upper-case
  forms above 255, which no character of this type holds, and are kept (they differ
  from every letter of an ASCII word either way).
\<close>

definition upper_char :: "char \<Rightarrow> string" where
  "upper_char c =
     (let n = (of_char c :: nat) in
      if 97 \<le> n \<and> n \<le> 122 then [char_of (n - 32)]
      else if n = 223 then ''SS''
      else if 224 \<le> n \<and> n \<le> 254 \<and> n \<noteq> 247 then [char_of (n - 32)]
      else [c])"

definition upper :: "string \<Rightarrow> string" where
  "upper s = concat (map upper_char s)"

text \<open>
  \<open>str.strip()\<close> without argument removes leading and trailing whitespace; among the
  code points up to 255 the whitespace characters are 9 to 13, 28 to 32, 133 and 160.
\<close>

definition is_space :: "char \<Rightarrow> bool" where
  "is_space c =
     (let n = (of_char c :: nat) in
      (9 \<le> n \<and> n \<le> 13) \<or> (28 \<le> n \<and> n \<le> 32) \<or> n = 133 \<or> n = 160)"

definition strip :: "string \<Rightarrow> string" where
  "strip s = rev (dropWhile is_space (rev (dropWhile is_space s)))"

text \<open>\<open>a in b\<close> on strings is containment of a contiguous run of characters.\<close>

definition str_in :: "string \<Rightarrow> string \<Rightarrow> bool" where
  "str_in a b = sublist a b"

text \<open>\<open>os.path.join\<close> of two components on POSIX.\<close>

definition os_path_join :: "string \<Rightarrow> string \<Rightarrow> string" where
  "os_path_join a b =
     (if b \<noteq> [] \<and> hd b = CHR ''/'' then b
      else if a = [] \<or> last a = CHR ''/'' then a @ b
      else a @ ''/'' @ b)"

section \<open>SentimentAnalyzer: the model life cycle\<close>

text \<open>
  The objects of the transformers library are opaque to the program; each is modelled
  by what it was built from, so that a pipeline tells which source it was loaded from.
\<close>

datatype model_class =
    AutoModelForSequenceClassification
  | TFAutoModelForSequenceClassification

datatype tokenizer = Tokenizer string

datatype model = Model model_class string bool

datatype pipeline_obj = Pipeline model tokenizer string

text \<open>
  The environment of a call: the file system, which library calls fail and with what,
  and what a pipeline answers when called on a list of texts.
\<close>

record env =
  path_exists :: "string \<Rightarrow> bool"
  tokenizer_error :: "string \<Rightarrow> exn option"
  model_error :: "model_class \<Rightarrow> string \<Rightarrow> bool \<Rightarrow> exn option"
  pipeline_error :: "model \<Rightarrow> tokenizer \<Rightarrow> string \<Rightarrow> exn option"
  invoke :: "pipeline_obj \<Rightarrow> string list \<Rightarrow> exn + result list"

definition tokenizer_from_pretrained :: "env \<Rightarrow> string \<Rightarrow> exn + tokenizer" where
  "tokenizer_from_pretrained E src =
     (case tokenizer_error E src of Some e \<Rightarrow> Inl e | None \<Rightarrow> Inr (Tokenizer src))"

definition model_from_pretrained :: "env \<Rightarrow> model_class \<Rightarrow> string \<Rightarrow> bool \<Rightarrow> exn + model" where
  "model_from_pretrained E cls src from_pt =
     (case model_error E cls src from_pt of
        Some e \<Rightarrow> Inl e
      | None \<Rightarrow> Inr (Model cls src from_pt))"

definition make_pipeline :: "env \<Rightarrow> model \<Rightarrow> tokenizer \<Rightarrow> string \<Rightarrow> exn + pipeline_obj" where
  "make_pipeline E m tok fw =
     (case pipeline_error E m tok fw of
        Some e \<Rightarrow> Inl e
      | None \<Rightarrow> Inr (Pipeline m tok fw))"

text \<open>What the logger receives from \<open>load_model\<close> and \<open>_predict_batch\<close>.\<close>

datatype log_entry =
    LoadingFineTuned string string
  | LoadingPretrained string string
  | LoadedOk string
  | ErrorLoading exn
  | BatchPredictionError exn

record analyzer =
  model_name :: string
  framework :: string
  model_path :: string
  pipeline :: "pipeline_obj attr"
  logged :: "log_entry list"

definition emit :: "log_entry \<Rightarrow> analyzer \<Rightarrow> analyzer" where
  "emit l a = a\<lparr>logged := logged a @ [l]\<rparr>"

text \<open>
  Lines 114 to 118: the old pipeline is deleted, then the new one is built and
  assigned. A raised exception leaves the state as it is at that point.
\<close>

definition install :: "env \<Rightarrow> analyzer \<Rightarrow> model \<Rightarrow> tokenizer \<Rightarrow> exn option \<times> analyzer" where
  "install E a m tok =
     (case pipeline a of
        Deleted \<Rightarrow> (Some no_pipeline_attr, a)
      | _ \<Rightarrow>
          (let a1 = (if pipeline a \<noteq> PyNone then a\<lparr>pipeline := Deleted\<rparr> else a) in
           case make_pipeline E m tok (framework a) of
             Inl e \<Rightarrow> (Some e, a1)
           | Inr p \<Rightarrow> (None, emit (LoadedOk (framework a)) (a1\<lparr>pipeline := Obj p\<rparr>))))"

text \<open>
  The two branches of the \<open>if\<close> of line 101: lines 102 to 104 load the tokenizer and
  the model from \<open>model_path\<close>, lines 106 to 112 from \<open>model_name\<close>. Either
  continues at line 114.
\<close>

definition load_fine_tuned :: "env \<Rightarrow> analyzer \<Rightarrow> model_class \<Rightarrow> exn option \<times> analyzer" where
  "load_fine_tuned E a model_class =
     (let a1 = emit (LoadingFineTuned (framework a) (model_path a)) a in
      case tokenizer_from_pretrained E (model_path a) of
        Inl e \<Rightarrow> (Some e, a1)
      | Inr tok \<Rightarrow>
          (case model_from_pretrained E model_class (model_path a) False of
             Inl e \<Rightarrow> (Some e, a1)
           | Inr m \<Rightarrow> install E a1 m tok))"

definition load_pretrained :: "env \<Rightarrow> analyzer \<Rightarrow> model_class \<Rightarrow> exn option \<times> analyzer" where
  "load_pretrained E a model_class =
     (let a1 = emit (LoadingPretrained (framework a) (model_name a)) a in
      case tokenizer_from_pretrained E (model_name a) of
        Inl e \<Rightarrow> (Some e, a1)
      | Inr tok \<Rightarrow>
          (case model_from_pretrained E model_class (model_name a)
                  (framework a = ''tf''
                   \<and> path_exists E (os_path_join (model_path a) ''pytorch_model.bin'')) of
             Inl e \<Rightarrow> (Some e, a1)
           | Inr m \<Rightarrow> install E a1 m tok))"

text \<open>The body of the \<open>try\<close> of \<open>load_model\<close>, lines 98 to 118.\<close>

definition load_try :: "env \<Rightarrow> analyzer \<Rightarrow> exn option \<times> analyzer" where
  "load_try E a =
     (let model_class = (if framework a = ''pt'' then AutoModelForSequenceClassification
                         else TFAutoModelForSequenceClassification);
          model_file = (if framework a = ''pt'' then ''pytorch_model.bin'' else ''tf_model.h5'')
      in
      if path_exists E (model_path a) \<and> path_exists E (os_path_join (model_path a) model_file)
      then load_fine_tuned E a model_class
      else load_pretrained E a model_class)"

text \<open>
  \<open>load_model\<close>: the handler logs the exception and re-raises it when
  \<open>self.pipeline is None\<close>; reading a deleted attribute there raises in its turn.
  The first component is the exception that leaves \<open>load_model\<close>, if any.
\<close>

definition load_model :: "env \<Rightarrow> analyzer \<Rightarrow> exn option \<times> analyzer" where
  "load_model E a =
     (case load_try E a of
        (None, a') \<Rightarrow> (None, a')
      | (Some e, a') \<Rightarrow>
          (let a'' = emit (ErrorLoading e) a' in
           case pipeline a'' of
             Deleted \<Rightarrow> (Some no_pipeline_attr, a'')
           | PyNone \<Rightarrow> (Some e, a'')
           | Obj p \<Rightarrow> (None, a'')))"

text \<open>
  \<open>_predict_batch\<close>, lines 125 to 138. \<open>convert\<close> is the dictionary built for one
  element of the answer of the pipeline; scores are real numbers, on which \<open>float\<close>
  changes nothing.
\<close>

definition convert :: "result \<Rightarrow> result" where
  "convert res =
     \<lparr>label = (if upper (label res) = ''POSITIVE'' then ''positive'' else ''negative''),
      score = score res\<rparr>"

definition predict_batch :: "env \<Rightarrow> analyzer \<Rightarrow> string list \<Rightarrow> (exn + result list) \<times> analyzer" where
  "predict_batch E a texts =
     (case pipeline a of
        Deleted \<Rightarrow> (Inl no_pipeline_attr, a)
      | PyNone \<Rightarrow> (Inl (RuntimeError ''Model is not loaded.''), a)
      | Obj p \<Rightarrow>
          (case invoke E p texts of
             Inl e \<Rightarrow> (Inl e, emit (BatchPredictionError e) a)
           | Inr results \<Rightarrow> (Inr (map convert results), a)))"

text \<open>The state after \<open>__init__\<close> has set the fields, before the first \<open>load_model\<close>.\<close>

definition new_analyzer :: "string \<Rightarrow> string \<Rightarrow> analyzer" where
  "new_analyzer name fw =
     \<lparr>model_name = name, framework = fw, model_path = ''./model'',
      pipeline = PyNone, logged = []\<rparr>"

section \<open>RequestBatcher\<close>

text \<open>
  A future is identified by a number, in the order of creation. The store lists the
  futures that are done, in the order of completion, each with its outcome; a future
  with no entry is pending. As in asyncio, \<open>set_result\<close> and \<open>set_exception\<close> on a
  future that is done raise \<open>InvalidStateError\<close>. Callers only await their future:
  nothing but the worker thread completes one.
\<close>

type_synonym fid = nat

datatype 'r outcome = Result 'r | Exception exn

type_synonym 'r store = "(fid \<times> 'r outcome) list"

definition is_done :: "'r store \<Rightarrow> fid \<Rightarrow> bool" where
  "is_done s f = (map_of s f \<noteq> None)"

definition set_result :: "fid \<Rightarrow> 'r \<Rightarrow> 'r store \<Rightarrow> exn + 'r store" where
  "set_result f r s = (if is_done s f then Inl InvalidStateError else Inr (s @ [(f, Result r)]))"

definition set_exception :: "fid \<Rightarrow> exn \<Rightarrow> 'r store \<Rightarrow> exn + 'r store" where
  "set_exception f e s =
     (if is_done s f then Inl InvalidStateError else Inr (s @ [(f, Exception e)]))"

text \<open>Lines 74-75 and 78-79: the two loops over the futures of a batch.\<close>

fun set_results :: "(fid \<times> 'r) list \<Rightarrow> 'r store \<Rightarrow> exn option \<times> 'r store" where
  "set_results [] s = (None, s)"
| "set_results ((f, r) # rest) s =
     (case set_result f r s of
        Inl e \<Rightarrow> (Some e, s)
      | Inr s' \<Rightarrow> set_results rest s')"

fun set_exceptions :: "fid list \<Rightarrow> exn \<Rightarrow> 'r store \<Rightarrow> exn option \<times> 'r store" where
  "set_exceptions [] e s = (None, s)"
| "set_exceptions (f # rest) e s =
     (case set_exception f e s of
        Inl e' \<Rightarrow> (Some e', s)
      | Inr s' \<Rightarrow> set_exceptions rest e s')"

text \<open>
  The batcher: the queue and the counter of futures on the side of the callers; on the
  side of the worker thread its local \<open>items\<close>, the batches it has passed to
  \<open>predict_func\<close> so far, the store of futures, the errors it has logged, and the
  exception that ended the thread, if one did.
\<close>

record 'r batcher =
  queue :: "(string \<times> fid) list"
  next_future :: nat
  items :: "(string \<times> fid) list"
  batches :: "(string \<times> fid) list list"
  store :: "'r store"
  wlogged :: "exn list"
  crashed :: "exn option"

definition new_batcher :: "'r batcher" where
  "new_batcher =
     \<lparr>queue = [], next_future = 0, items = [], batches = [], store = [],
      wlogged = [], crashed = None\<rparr>"

text \<open>
  \<open>submit\<close> up to its \<open>await\<close>: a new future, and the pair put on the queue. The
  caller resumes with the outcome of that future.
\<close>

definition submit :: "string \<Rightarrow> 'r batcher \<Rightarrow> fid \<times> 'r batcher" where
  "submit text b =
     (next_future b,
      b\<lparr>queue := queue b @ [(text, next_future b)], next_future := Suc (next_future b)\<rparr>)"

definition await_future :: "'r batcher \<Rightarrow> fid \<Rightarrow> (exn + 'r) option" where
  "await_future b f =
     (case map_of (store b) f of
        None \<Rightarrow> None
      | Some (Result r) \<Rightarrow> Some (Inr r)
      | Some (Exception e) \<Rightarrow> Some (Inl e))"

text \<open>
  \<open>predict_func\<close> is a parameter of the batcher. It may answer differently from call
  to call (the model can be replaced in between), so it is given the number of the
  call: \<open>predict k texts\<close> is the outcome of the call number \<open>k\<close>, counted from 0.
\<close>

type_synonym 'r predict_func = "nat \<Rightarrow> string list \<Rightarrow> exn + 'r list"

text \<open>Lines 76 to 79: the handler of the \<open>try\<close> around a batch.\<close>

definition fail_batch :: "exn \<Rightarrow> fid list \<Rightarrow> 'r batcher \<Rightarrow> 'r batcher" where
  "fail_batch e futures b =
     (let b1 = b\<lparr>wlogged := wlogged b @ [e]\<rparr> in
      case set_exceptions futures e (store b1) of
        (None, s) \<Rightarrow> b1\<lparr>store := s\<rparr>
      | (Some e', s) \<Rightarrow> b1\<lparr>store := s, crashed := Some e'\<rparr>)"

text \<open>Lines 69 to 79: one batch, from the collected \<open>items\<close>.\<close>

definition process_batch :: "'r predict_func \<Rightarrow> 'r batcher \<Rightarrow> 'r batcher" where
  "process_batch predict b =
     (let texts = map fst (items b);
          futures = map snd (items b);
          b1 = b\<lparr>batches := batches b @ [items b]\<rparr>
      in
      case predict (length (batches b)) texts of
        Inl e \<Rightarrow> fail_batch e futures b1
      | Inr results \<Rightarrow>
          (case set_results (zip futures results) (store b1) of
             (None, s) \<Rightarrow> b1\<lparr>store := s\<rparr>
           | (Some e, s) \<Rightarrow> fail_batch e futures (b1\<lparr>store := s\<rparr>)))"

definition dispatch_batch :: "'r predict_func \<Rightarrow> 'r batcher \<Rightarrow> 'r batcher" where
  "dispatch_batch predict b =
     (let b' = process_batch predict b in
      if crashed b' = None then b'\<lparr>items := []\<rparr> else b')"

text \<open>
  \<open>queue.get(timeout=...)\<close>: the oldest pair of the queue, or \<open>Empty\<close> (here \<open>None\<close>)
  when the queue has stayed empty for the time of the wait.
\<close>

definition queue_get :: "'r batcher \<Rightarrow> (string \<times> fid) option \<times> 'r batcher" where
  "queue_get b =
     (case queue b of
        [] \<Rightarrow> (None, b)
      | x # q \<Rightarrow> (Some x, b\<lparr>queue := q\<rparr>))"

text \<open>
  The worker from one \<open>queue.get\<close> to the next. With \<open>items\<close> empty the call is the one
  of line 59, where \<open>Empty\<close> restarts the loop; otherwise it is the one of line 65, where
  \<open>Empty\<close> leaves the inner loop. After an item is appended the condition of the inner
  loop, \<open>len(items) < self.batch_size\<close>, decides between a further \<open>get\<close> and the batch.
\<close>

definition worker_get :: "int \<Rightarrow> 'r predict_func \<Rightarrow> 'r batcher \<Rightarrow> 'r batcher" where
  "worker_get batch_size predict b =
     (if crashed b \<noteq> None then b
      else
        (case queue_get b of
           (None, b') \<Rightarrow> (if items b' = [] then b' else dispatch_batch predict b')
         | (Some x, b') \<Rightarrow>
             (let b'' = b'\<lparr>items := items b' @ [x]\<rparr> in
              if int (length (items b'')) < batch_size then b''
              else dispatch_batch predict b'')))"

text \<open>
  A run of the batcher is a schedule: callers that submit, and the \<open>get\<close> calls of the
  worker thread in between. A \<open>get\<close> that waits and is served by a later \<open>put\<close> is the
  schedule with that submit first.
\<close>

datatype event = Submit string | Get

definition batcher_step :: "int \<Rightarrow> 'r predict_func \<Rightarrow> 'r batcher \<Rightarrow> event \<Rightarrow> 'r batcher" where
  "batcher_step batch_size predict b ev =
     (case ev of
        Submit text \<Rightarrow> snd (submit text b)
      | Get \<Rightarrow> worker_get batch_size predict b)"

definition run :: "int \<Rightarrow> 'r predict_func \<Rightarrow> event list \<Rightarrow> 'r batcher" where
  "run batch_size predict evs = foldl (batcher_step batch_size predict) new_batcher evs"

text \<open>The texts submitted by a schedule, in order.\<close>

fun submitted :: "event list \<Rightarrow> string list" where
  "submitted [] = []"
| "submitted (Submit text # evs) = text # submitted evs"
| "submitted (Get # evs) = submitted evs"

text \<open>How often a future has been completed.\<close>

definition completions :: "'r store \<Rightarrow> fid \<Rightarrow> nat" where
  "completions s f = length (filter (\<lambda>p. fst p = f) s)"

section \<open>The GraphQL facade\<close>

text \<open>
  \<open>Query.predict\<close> of \<open>app.py\<close> up to its \<open>await\<close>; \<open>SentimentAnalyzer.predict\<close> hands
  the text to the batcher.
\<close>

definition analyzer_predict :: "string \<Rightarrow> 'r batcher \<Rightarrow> fid \<times> 'r batcher" where
  "analyzer_predict text b = submit text b"

definition query_predict :: "string \<Rightarrow> 'r batcher \<Rightarrow> (exn + fid) \<times> 'r batcher" where
  "query_predict text b =
     (if strip text = [] then (Inl (ValueError ''Text input cannot be empty.''), b)
      else (let (f, b') = analyzer_predict text b in (Inr f, b')))"

section \<open>ModelChangeHandler\<close>

text \<open>
  The events of the watchdog library. The dispatch of the base class calls the method
  named after the type of the event; the handler overrides \<open>on_modified\<close> and
  \<open>on_created\<close>, the others are the empty methods of the base class. Times are seconds,
  as real numbers.
\<close>

datatype event_type = EvMoved | EvDeleted | EvCreated | EvModified | EvClosed | EvOpened

record fs_event =
  event_type :: event_type
  is_directory :: bool
  src_path :: string

text \<open>What a call of the handler does besides calling the analyzer: the log line and the sleep.\<close>

datatype effect = LogDetected string | Sleep real

record handler =
  last_reload_time :: real
  reload_cooldown :: real
  target :: analyzer

definition new_handler :: "analyzer \<Rightarrow> handler" where
  "new_handler a = \<lparr>last_reload_time = 0, reload_cooldown = 2, target = a\<rparr>"

definition model_files :: "string list" where
  "model_files =
     [''pytorch_model.bin'', ''tf_model.h5'', ''config.json'', ''tokenizer.json'',
      ''tokenizer_config.json'']"

text \<open>
  \<open>on_modified\<close>. The files change while the handler runs, so the environment is given
  for every time: \<open>world t\<close> is what the library calls find at the time \<open>t\<close>.
  \<open>current_time\<close> is the reading of the clock on line 29; after \<open>time.sleep(0.5)\<close> the
  call \<open>self.analyzer.load_model()\<close> of line 34 runs in the environment of half a second
  later. The result is the exception that leaves the method, the handler (and the
  analyzer it refers to) after the call, and the log line and the sleep, in order.
\<close>

definition on_modified ::
  "(real \<Rightarrow> env) \<Rightarrow> real \<Rightarrow> fs_event \<Rightarrow> handler \<Rightarrow> exn option \<times> handler \<times> effect list" where
  "on_modified world current_time ev h =
     (if \<not> is_directory ev then
        (if list_ex (\<lambda>model_file. str_in model_file (src_path ev)) model_files then
           (if current_time - last_reload_time h > reload_cooldown h then
              (let h1 = h\<lparr>last_reload_time := current_time\<rparr>;
                   (raised, a') = load_model (world (current_time + 1/2)) (target h1)
               in (raised, h1\<lparr>target := a'\<rparr>, [LogDetected (src_path ev), Sleep (1/2)]))
            else (None, h, []))
         else (None, h, []))
      else (None, h, []))"

definition on_created ::
  "(real \<Rightarrow> env) \<Rightarrow> real \<Rightarrow> fs_event \<Rightarrow> handler \<Rightarrow> exn option \<times> handler \<times> effect list" where
  "on_created world current_time ev h = on_modified world current_time ev h"

definition dispatch ::
  "(real \<Rightarrow> env) \<Rightarrow> real \<Rightarrow> fs_event \<Rightarrow> handler \<Rightarrow> exn option \<times> handler \<times> effect list" where
  "dispatch world current_time ev h =
     (case event_type ev of
        EvModified \<Rightarrow> on_modified world current_time ev h
      | EvCreated \<Rightarrow> on_created world current_time ev h
      | _ \<Rightarrow> (None, h, []))"

text \<open>
  The file name of a path, as \<open>os.path.basename\<close> gives it: what follows the last
  slash. The handler does not compute it; it serves to say which file an event is
  about.
\<close>

definition file_name_of :: "string \<Rightarrow> string" where
  "file_name_of p = rev (takeWhile (\<lambda>c. c \<noteq> CHR ''/'') (rev p))"

section \<open>The lock around the model\<close>

text \<open>
  Between two statements of a method another thread can run, so \<open>load_model\<close> and
  \<open>_predict_batch\<close> are cut into the pieces between which the analyzer can be looked
  at. The pieces of \<open>load_model\<close>: lines 98 to 112 log the source and load tokenizer
  and model; lines 114 and 115 delete the old pipeline; lines 117 and 118 build and
  assign the new one; lines 120 to 123 are the handler.
\<close>

definition load_sources :: "env \<Rightarrow> analyzer \<Rightarrow> (exn + model \<times> tokenizer) \<times> analyzer" where
  "load_sources E a =
     (let model_class = (if framework a = ''pt'' then AutoModelForSequenceClassification
                         else TFAutoModelForSequenceClassification);
          model_file = (if framework a = ''pt'' then ''pytorch_model.bin'' else ''tf_model.h5'')
      in
      if path_exists E (model_path a) \<and> path_exists E (os_path_join (model_path a) model_file)
      then
        (let a1 = emit (LoadingFineTuned (framework a) (model_path a)) a in
         case tokenizer_from_pretrained E (model_path a) of
           Inl e \<Rightarrow> (Inl e, a1)
         | Inr tok \<Rightarrow>
             (case model_from_pretrained E model_class (model_path a) False of
                Inl e \<Rightarrow> (Inl e, a1)
              | Inr m \<Rightarrow> (Inr (m, tok), a1)))
      else
        (let a1 = emit (LoadingPretrained (framework a) (model_name a)) a in
         case tokenizer_from_pretrained E (model_name a) of
           Inl e \<Rightarrow> (Inl e, a1)
         | Inr tok \<Rightarrow>
             (case model_from_pretrained E model_class (model_name a)
                     (framework a = ''tf''
                      \<and> path_exists E (os_path_join (model_path a) ''pytorch_model.bin'')) of
                Inl e \<Rightarrow> (Inl e, a1)
              | Inr m \<Rightarrow> (Inr (m, tok), a1))))"

definition drop_old :: "analyzer \<Rightarrow> exn option \<times> analyzer" where
  "drop_old a =
     (case pipeline a of
        Deleted \<Rightarrow> (Some no_pipeline_attr, a)
      | PyNone \<Rightarrow> (None, a)
      | Obj p \<Rightarrow> (None, a\<lparr>pipeline := Deleted\<rparr>))"

definition build_new :: "env \<Rightarrow> analyzer \<Rightarrow> model \<Rightarrow> tokenizer \<Rightarrow> exn option \<times> analyzer" where
  "build_new E a m tok =
     (case make_pipeline E m tok (framework a) of
        Inl e \<Rightarrow> (Some e, a)
      | Inr p \<Rightarrow> (None, emit (LoadedOk (framework a)) (a\<lparr>pipeline := Obj p\<rparr>)))"

definition load_except :: "exn \<Rightarrow> analyzer \<Rightarrow> exn option \<times> analyzer" where
  "load_except e a =
     (let a' = emit (ErrorLoading e) a in
      case pipeline a' of
        Deleted \<Rightarrow> (Some no_pipeline_attr, a')
      | PyNone \<Rightarrow> (Some e, a')
      | Obj p \<Rightarrow> (None, a'))"

text \<open>
  The pieces of \<open>_predict_batch\<close>: the test of lines 126 and 127, which reads
  \<open>self.pipeline\<close> before the lock is taken, and the body of the \<open>with\<close>, lines 129 to
  138, which reads it again to call it.
\<close>

definition predict_test :: "analyzer \<Rightarrow> exn option" where
  "predict_test a =
     (case pipeline a of
        Deleted \<Rightarrow> Some no_pipeline_attr
      | PyNone \<Rightarrow> Some (RuntimeError ''Model is not loaded.'')
      | Obj p \<Rightarrow> None)"

definition predict_body :: "env \<Rightarrow> analyzer \<Rightarrow> string list \<Rightarrow> (exn + result list) \<times> analyzer" where
  "predict_body E a texts =
     (case pipeline a of
        Deleted \<Rightarrow> (Inl no_pipeline_attr, emit (BatchPredictionError no_pipeline_attr) a)
      | PyNone \<Rightarrow>
          (Inl (TypeError ''NoneType object is not callable''),
           emit (BatchPredictionError (TypeError ''NoneType object is not callable'')) a)
      | Obj p \<Rightarrow>
          (case invoke E p texts of
             Inl e \<Rightarrow> (Inl e, emit (BatchPredictionError e) a)
           | Inr results \<Rightarrow> (Inr (map convert results), a)))"

text \<open>
  The threads. Each is outside both methods or at one of their pieces: in
  \<open>load_model\<close> before the \<open>with\<close>, then, holding the lock, at line 98, 114, 117 or
  120 with the local variables of that point; in \<open>_predict_batch\<close> at the test of line
  126, before the \<open>with\<close>, or, holding the lock, at line 131. \<open>load_lock\<close> is one
  \<open>threading.Lock\<close>: it is taken only when free, and a \<open>with\<close> releases it on every way
  out of its body. \<open>shared\<close> is the analyzer all threads refer to; \<open>returned\<close> is what
  the last call of a thread returned or raised.
\<close>

datatype place =
    Outside
  | LoadEnter
  | LoadAt98
  | LoadAt114 model tokenizer
  | LoadAt117 model tokenizer
  | LoadAt120 exn
  | PredictAt126 "string list"
  | PredictEnter "string list"
  | PredictAt131 "string list"

datatype call_result = LoadResult "exn option" | PredictResult "exn + result list"

record threads =
  load_lock :: bool
  shared :: analyzer
  place_of :: "nat \<Rightarrow> place"
  returned :: "nat \<Rightarrow> call_result option"

definition threads_init :: "analyzer \<Rightarrow> threads" where
  "threads_init a =
     \<lparr>load_lock = False, shared = a, place_of = (\<lambda>t. Outside), returned = (\<lambda>t. None)\<rparr>"

definition at_place :: "threads \<Rightarrow> nat \<Rightarrow> place \<Rightarrow> threads" where
  "at_place s t p = s\<lparr>place_of := (place_of s)(t := p)\<rparr>"

text \<open>The end of a call: the lock is released when the call held it, and the result kept.\<close>

definition leave :: "threads \<Rightarrow> nat \<Rightarrow> bool \<Rightarrow> call_result \<Rightarrow> threads" where
  "leave s t held r =
     (at_place s t Outside)
       \<lparr>load_lock := (if held then False else load_lock s),
        returned := (returned s)(t := Some r)\<rparr>"

text \<open>
  The next piece of the thread \<open>t\<close>; \<open>None\<close> when the thread is outside or waits for
  the lock.
\<close>

definition thread_step :: "env \<Rightarrow> threads \<Rightarrow> nat \<Rightarrow> threads option" where
  "thread_step E s t =
     (case place_of s t of
        Outside \<Rightarrow> None
      | LoadEnter \<Rightarrow>
          (if load_lock s then None
           else Some (at_place (s\<lparr>load_lock := True\<rparr>) t LoadAt98))
      | LoadAt98 \<Rightarrow>
          (case load_sources E (shared s) of
             (Inl e, a) \<Rightarrow> Some (at_place (s\<lparr>shared := a\<rparr>) t (LoadAt120 e))
           | (Inr (m, tok), a) \<Rightarrow> Some (at_place (s\<lparr>shared := a\<rparr>) t (LoadAt114 m tok)))
      | LoadAt114 m tok \<Rightarrow>
          (case drop_old (shared s) of
             (Some e, a) \<Rightarrow> Some (at_place (s\<lparr>shared := a\<rparr>) t (LoadAt120 e))
           | (None, a) \<Rightarrow> Some (at_place (s\<lparr>shared := a\<rparr>) t (LoadAt117 m tok)))
      | LoadAt117 m tok \<Rightarrow>
          (case build_new E (shared s) m tok of
             (Some e, a) \<Rightarrow> Some (at_place (s\<lparr>shared := a\<rparr>) t (LoadAt120 e))
           | (None, a) \<Rightarrow> Some (leave (s\<lparr>shared := a\<rparr>) t True (LoadResult None)))
      | LoadAt120 e \<Rightarrow>
          (case load_except e (shared s) of
             (r, a) \<Rightarrow> Some (leave (s\<lparr>shared := a\<rparr>) t True (LoadResult r)))
      | PredictAt126 texts \<Rightarrow>
          (case predict_test (shared s) of
             Some e \<Rightarrow> Some (leave s t False (PredictResult (Inl e)))
           | None \<Rightarrow> Some (at_place s t (PredictEnter texts)))
      | PredictEnter texts \<Rightarrow>
          (if load_lock s then None
           else Some (at_place (s\<lparr>load_lock := True\<rparr>) t (PredictAt131 texts)))
      | PredictAt131 texts \<Rightarrow>
          (case predict_body E (shared s) texts of
             (r, a) \<Rightarrow> Some (leave (s\<lparr>shared := a\<rparr>) t True (PredictResult r))))"

text \<open>A schedule: threads that call one of the two methods, and threads that run on.\<close>

datatype move = CallLoadModel nat | CallPredictBatch nat "string list" | Step nat

fun move_step :: "env \<Rightarrow> threads \<Rightarrow> move \<Rightarrow> threads option" where
  "move_step E s (CallLoadModel t) =
     (if place_of s t = Outside then Some (at_place s t LoadEnter) else None)"
| "move_step E s (CallPredictBatch t texts) =
     (if place_of s t = Outside then Some (at_place s t (PredictAt126 texts)) else None)"
| "move_step E s (Step t) = thread_step E s t"

fun moves :: "env \<Rightarrow> threads \<Rightarrow> move list \<Rightarrow> threads option" where
  "moves E s [] = Some s"
| "moves E s (m # ms) = (case move_step E s m of None \<Rightarrow> None | Some s' \<Rightarrow> moves E s' ms)"

text \<open>A thread holds the lock at the places inside a \<open>with\<close>.\<close>

fun inside :: "place \<Rightarrow> bool" where
  "inside LoadAt98 = True"
| "inside (LoadAt114 m tok) = True"
| "inside (LoadAt117 m tok) = True"
| "inside (LoadAt120 e) = True"
| "inside (PredictAt131 texts) = True"
| "inside p = False"

definition lock_inv :: "threads \<Rightarrow> bool" where
  "lock_inv s \<longleftrightarrow>
     (load_lock s \<longleftrightarrow> (\<exists>t. inside (place_of s t)))
     \<and> (\<forall>t u. inside (place_of s t) \<and> inside (place_of s u) \<longrightarrow> t = u)"

text \<open>What a schedule leaves of the threads 0 and 1, for the examples.\<close>

definition observe :: "threads \<Rightarrow> bool \<times> place \<times> place \<times> call_result option \<times> pipeline_obj attr" where
  "observe s = (load_lock s, place_of s 0, place_of s 1, returned s 1, pipeline (shared s))"

section \<open>What a run of the batcher leaves behind\<close>

text \<open>
  The completions that one batch adds to the store when its futures are pending: an
  exception for every future when \<open>predict_func\<close> raises, and otherwise the results,
  paired with the futures by position as \<open>zip\<close> does.
\<close>

definition batch_store :: "'r predict_func \<Rightarrow> nat \<Rightarrow> (string \<times> fid) list \<Rightarrow> 'r store" where
  "batch_store predict k batch =
     (case predict k (map fst batch) of
        Inl e \<Rightarrow> map (\<lambda>f. (f, Exception e)) (map snd batch)
      | Inr results \<Rightarrow> map (\<lambda>(f, r). (f, Result r)) (zip (map snd batch) results))"

fun expected_store :: "'r predict_func \<Rightarrow> nat \<Rightarrow> (string \<times> fid) list list \<Rightarrow> 'r store" where
  "expected_store predict k [] = []"
| "expected_store predict k (batch # rest) =
     batch_store predict k batch @ expected_store predict (Suc k) rest"

text \<open>Every request the batcher holds, oldest first.\<close>

definition all_requests :: "'r batcher \<Rightarrow> (string \<times> fid) list" where
  "all_requests b = concat (batches b) @ items b @ queue b"

text \<open>
  The invariant of a run in which \<open>texts\<close> have been submitted: the worker is alive,
  the requests are the texts in their order with the futures numbered in that order,
  the store holds what the batches so far have produced, no batch is empty, and,
  for a positive batch size, no batch exceeds it and \<open>items\<close> stays below it.
\<close>

definition batcher_inv :: "int \<Rightarrow> 'r predict_func \<Rightarrow> string list \<Rightarrow> 'r batcher \<Rightarrow> bool" where
  "batcher_inv batch_size predict texts b \<longleftrightarrow>
     crashed b = None
   \<and> next_future b = length texts
   \<and> all_requests b = zip texts [0..<length texts]
   \<and> store b = expected_store predict 0 (batches b)
   \<and> [] \<notin> set (batches b)
   \<and> (1 \<le> batch_size \<longrightarrow>
        (\<forall>batch \<in> set (batches b). int (length batch) \<le> batch_size)
        \<and> int (length (items b)) < batch_size)"

text \<open>The arguments of the calls of \<open>predict_func\<close> so far.\<close>

definition calls :: "'r batcher \<Rightarrow> string list list" where
  "calls b = map (map fst) (batches b)"

section \<open>Concrete states and environments\<close>

text \<open>An analyzer that serves a loaded model, as after a successful start.\<close>

definition loaded_pipeline :: pipeline_obj where
  "loaded_pipeline =
     Pipeline (Model AutoModelForSequenceClassification ''distilbert'' False)
       (Tokenizer ''distilbert'') ''pt''"

definition serving_analyzer :: analyzer where
  "serving_analyzer = (new_analyzer ''distilbert'' ''pt'')\<lparr>pipeline := Obj loaded_pipeline\<rparr>"

definition sample_invoke :: "pipeline_obj \<Rightarrow> string list \<Rightarrow> exn + result list" where
  "sample_invoke p texts =
     Inr (map (\<lambda>t. if t = ''great product'' then \<lparr>label = ''Positive'', score = 9/10\<rparr>
                     else \<lparr>label = ''NEUTRAL'', score = 1/2\<rparr>) texts)"

text \<open>
  No fine-tuned model on disk, tokenizer and model load, and the construction of the
  pipeline fails.
\<close>

definition pipeline_fails_env :: env where
  "pipeline_fails_env =
     \<lparr>path_exists = (\<lambda>p. False),
      tokenizer_error = (\<lambda>src. None),
      model_error = (\<lambda>cls src from_pt. None),
      pipeline_error = (\<lambda>m tok fw. Some (LibraryError ''out of memory'')),
      invoke = sample_invoke\<rparr>"

text \<open>A fine-tuned PyTorch model on disk, and every library call succeeds.\<close>

definition fine_tuned_env :: env where
  "fine_tuned_env =
     \<lparr>path_exists = (\<lambda>p. p = ''./model'' \<or> p = ''./model/pytorch_model.bin''),
      tokenizer_error = (\<lambda>src. None),
      model_error = (\<lambda>cls src from_pt. None),
      pipeline_error = (\<lambda>m tok fw. None),
      invoke = sample_invoke\<rparr>"

definition config_modified :: fs_event where
  "config_modified =
     \<lparr>event_type = EvModified, is_directory = False, src_path = ''./model/config.json''\<rparr>"

text \<open>An event about a file that is no file of a model, in a directory named like one.\<close>

definition notes_modified :: fs_event where
  "notes_modified =
     \<lparr>event_type = EvModified, is_directory = False,
      src_path = ''./model/config.json.d/notes.txt''\<rparr>"

text \<open>
  A fine-tuned model that is being saved: before the time 10.25 nothing is on disk and
  no pipeline can be built, from then on the model is complete.
\<close>

definition saving_world :: "real \<Rightarrow> env" where
  "saving_world t = (if t < 41/4 then pipeline_fails_env else fine_tuned_env)"

text \<open>
  A reload in which every library call succeeds, run by the thread 0 up to the call of
  line 117, and a batch that the thread 1 hands to \<open>_predict_batch\<close> at that moment.
\<close>

definition batch_during_reload :: "move list" where
  "batch_during_reload =
     [CallLoadModel 0, Step 0, Step 0, Step 0, CallPredictBatch 1 [''great product''], Step 1]"

text \<open>
  The batcher as the analyzer builds it, with \<open>_predict_batch\<close> for \<open>predict_func\<close>:
  once with a model loaded, once before any model is loaded.
\<close>

definition analyzer_predict_func :: "result predict_func" where
  "analyzer_predict_func k texts = fst (predict_batch fine_tuned_env serving_analyzer texts)"

definition unloaded_predict_func :: "result predict_func" where
  "unloaded_predict_func k texts =
     fst (predict_batch fine_tuned_env (new_analyzer ''distilbert'' ''pt'') texts)"

definition three_requests :: "event list" where
  "three_requests = [Submit ''great product'', Submit ''terrible'', Submit ''ok'']"

text \<open>A \<open>predict_func\<close> that answers with one result, however many texts it is given.\<close>

definition short_predict :: "result predict_func" where
  "short_predict k texts = Inr (take 1 (map (\<lambda>t. \<lparr>label = ''positive'', score = 1\<rparr>) texts))"

definition two_requests :: "event list" where
  "two_requests = [Submit ''great product'', Submit ''ok'', Get, Get, Get]"

section \<open>The life cycle of the model\<close>

lemma install_logged:
  "\<exists>rest. logged (snd (install E a m tok)) = logged a @ rest"
  by (cases "pipeline a"; cases "pipeline_error E m tok (framework a)")
     (simp_all add: install_def make_pipeline_def emit_def)

lemma install_ok:
  "fst (install E a m tok) = None \<Longrightarrow>
     pipeline (snd (install E a m tok)) = Obj (Pipeline m tok (framework a))"
  by (cases "pipeline a"; cases "pipeline_error E m tok (framework a)")
     (simp_all add: install_def make_pipeline_def emit_def)

lemma load_fine_tuned_result:
  "(\<exists>rest. logged (snd (load_fine_tuned E a cls))
            = logged a @ LoadingFineTuned (framework a) (model_path a) # rest)
       \<and> (fst (load_fine_tuned E a cls) = None \<longrightarrow>
            pipeline (snd (load_fine_tuned E a cls))
               = Obj (Pipeline (Model cls (model_path a) False) (Tokenizer (model_path a))
                       (framework a)))"
proof -
  define a1 where "a1 = emit (LoadingFineTuned (framework a) (model_path a)) a"
  have a1: "logged a1 = logged a @ [LoadingFineTuned (framework a) (model_path a)]"
    "framework a1 = framework a"
    by (simp_all add: a1_def emit_def)
  note unf = load_fine_tuned_def Let_def tokenizer_from_pretrained_def model_from_pretrained_def
  show ?thesis
  proof (cases "tokenizer_error E (model_path a)")
    case (Some e)
    then show ?thesis by (simp add: unf emit_def)
  next
    case None
    note tok = this
    show ?thesis
    proof (cases "model_error E cls (model_path a) False")
      case (Some e)
      then show ?thesis using tok by (simp add: unf emit_def)
    next
      case None
      then have eq': "load_fine_tuned E a cls
          = install E a1 (Model cls (model_path a) False) (Tokenizer (model_path a))"
        using tok unfolding a1_def by (simp add: unf)
      from install_logged [of E a1 "Model cls (model_path a) False" "Tokenizer (model_path a)"]
      obtain rest where "logged (snd (load_fine_tuned E a cls)) = logged a1 @ rest"
        unfolding eq' by blast
      then have l: "\<exists>rest. logged (snd (load_fine_tuned E a cls))
            = logged a @ LoadingFineTuned (framework a) (model_path a) # rest"
        by (simp add: a1)
      have "fst (load_fine_tuned E a cls) = None \<longrightarrow> pipeline (snd (load_fine_tuned E a cls))
          = Obj (Pipeline (Model cls (model_path a) False) (Tokenizer (model_path a)) (framework a))"
        unfolding eq' using install_ok [of E a1] by (simp add: a1)
      with l show ?thesis by blast
    qed
  qed
qed

lemma load_pretrained_result:
  "(\<exists>rest. logged (snd (load_pretrained E a cls))
            = logged a @ LoadingPretrained (framework a) (model_name a) # rest)
       \<and> (fst (load_pretrained E a cls) = None \<longrightarrow>
            (\<exists>from_pt. pipeline (snd (load_pretrained E a cls))
               = Obj (Pipeline (Model cls (model_name a) from_pt) (Tokenizer (model_name a))
                       (framework a))))"
proof -
  define fp where "fp = (framework a = ''tf''
      \<and> path_exists E (os_path_join (model_path a) ''pytorch_model.bin''))"
  define a1 where "a1 = emit (LoadingPretrained (framework a) (model_name a)) a"
  have a1: "logged a1 = logged a @ [LoadingPretrained (framework a) (model_name a)]"
    "framework a1 = framework a"
    by (simp_all add: a1_def emit_def)
  note unf = load_pretrained_def Let_def tokenizer_from_pretrained_def model_from_pretrained_def
  show ?thesis
  proof (cases "tokenizer_error E (model_name a)")
    case (Some e)
    then show ?thesis by (simp add: unf emit_def)
  next
    case None
    note tok = this
    show ?thesis
    proof (cases "model_error E cls (model_name a) fp")
      case (Some e)
      then show ?thesis using tok unfolding fp_def by (simp add: unf emit_def)
    next
      case None
      then have eq': "load_pretrained E a cls
          = install E a1 (Model cls (model_name a) fp) (Tokenizer (model_name a))"
        using tok unfolding a1_def fp_def by (simp add: unf)
      from install_logged [of E a1 "Model cls (model_name a) fp" "Tokenizer (model_name a)"]
      obtain rest where "logged (snd (load_pretrained E a cls)) = logged a1 @ rest"
        unfolding eq' by blast
      then have l: "\<exists>rest. logged (snd (load_pretrained E a cls))
            = logged a @ LoadingPretrained (framework a) (model_name a) # rest"
        by (simp add: a1)
      have "fst (load_pretrained E a cls) = None \<longrightarrow> pipeline (snd (load_pretrained E a cls))
          = Obj (Pipeline (Model cls (model_name a) fp) (Tokenizer (model_name a)) (framework a))"
        unfolding eq' using install_ok [of E a1] by (simp add: a1)
      with l show ?thesis by blast
    qed
  qed
qed

lemma load_model_after_try:
  "fst (load_try E a) = None \<Longrightarrow> load_model E a = (None, snd (load_try E a))"
  by (cases "load_try E a") (simp add: load_model_def)

lemma load_model_logged:
  "\<exists>rest. logged (snd (load_model E a)) = logged (snd (load_try E a)) @ rest"
proof (cases "load_try E a")
  case (Pair r a')
  show ?thesis
  proof (cases r)
    case None
    with Pair show ?thesis by (simp add: load_model_def)
  next
    case (Some e)
    with Pair show ?thesis
      by (cases "pipeline a'") (simp_all add: load_model_def emit_def)
  qed
qed



text \<open>
  What holds of a failing load: at the first start, with no pipeline yet, the exception
  leaves \<open>load_model\<close>; with a pipeline in place, a failure of the tokenizer is logged
  and the pipeline stays.
\<close>

lemma install_first_boot:
  assumes "pipeline a = PyNone" and "fst (install E a m tok) = Some e"
  shows "pipeline (snd (install E a m tok)) = PyNone"
  using assms
  by (cases "pipeline_error E m tok (framework a)")
     (simp_all add: install_def make_pipeline_def)

lemma load_fine_tuned_first_boot:
  assumes "pipeline a = PyNone" and "fst (load_fine_tuned E a cls) = Some e"
  shows "pipeline (snd (load_fine_tuned E a cls)) = PyNone"
proof -
  define a1 where "a1 = emit (LoadingFineTuned (framework a) (model_path a)) a"
  have p1: "pipeline a1 = PyNone" using assms(1) by (simp add: a1_def emit_def)
  note unf = load_fine_tuned_def Let_def tokenizer_from_pretrained_def model_from_pretrained_def
  show ?thesis
  proof (cases "tokenizer_error E (model_path a)")
    case (Some e')
    then show ?thesis using assms(1) by (simp add: unf emit_def)
  next
    case None
    note tok = this
    show ?thesis
    proof (cases "model_error E cls (model_path a) False")
      case (Some e')
      then show ?thesis using assms(1) tok by (simp add: unf emit_def)
    next
      case None
      then have eq: "load_fine_tuned E a cls
          = install E a1 (Model cls (model_path a) False) (Tokenizer (model_path a))"
        using tok unfolding a1_def by (simp add: unf)
      from assms(2) show ?thesis unfolding eq by (rule install_first_boot [OF p1])
    qed
  qed
qed

lemma load_pretrained_first_boot:
  assumes "pipeline a = PyNone" and "fst (load_pretrained E a cls) = Some e"
  shows "pipeline (snd (load_pretrained E a cls)) = PyNone"
proof -
  define fp where "fp = (framework a = ''tf''
      \<and> path_exists E (os_path_join (model_path a) ''pytorch_model.bin''))"
  define a1 where "a1 = emit (LoadingPretrained (framework a) (model_name a)) a"
  have p1: "pipeline a1 = PyNone" using assms(1) by (simp add: a1_def emit_def)
  note unf = load_pretrained_def Let_def tokenizer_from_pretrained_def model_from_pretrained_def
  show ?thesis
  proof (cases "tokenizer_error E (model_name a)")
    case (Some e')
    then show ?thesis using assms(1) by (simp add: unf emit_def)
  next
    case None
    note tok = this
    show ?thesis
    proof (cases "model_error E cls (model_name a) fp")
      case (Some e')
      then show ?thesis using assms(1) tok unfolding fp_def by (simp add: unf emit_def)
    next
      case None
      then have eq: "load_pretrained E a cls
          = install E a1 (Model cls (model_name a) fp) (Tokenizer (model_name a))"
        using tok unfolding a1_def fp_def by (simp add: unf)
      from assms(2) show ?thesis unfolding eq by (rule install_first_boot [OF p1])
    qed
  qed
qed

lemma load_model_first_boot:
  assumes "pipeline a = PyNone" and "fst (load_try E a) = Some e"
  shows "fst (load_model E a) = Some e"
proof -
  obtain c cls where lt:
    "load_try E a = (if c then load_fine_tuned E a cls else load_pretrained E a cls)"
    by (simp add: load_try_def Let_def)
  have "pipeline (snd (load_try E a)) = PyNone"
  proof (cases c)
    case True
    with lt have eq: "load_try E a = load_fine_tuned E a cls" by simp
    from assms(2) show ?thesis
      unfolding eq by (rule load_fine_tuned_first_boot [OF assms(1)])
  next
    case False
    with lt have eq: "load_try E a = load_pretrained E a cls" by simp
    from assms(2) show ?thesis
      unfolding eq by (rule load_pretrained_first_boot [OF assms(1)])
  qed
  then show ?thesis
    using assms(2) by (cases "load_try E a") (simp add: load_model_def emit_def)
qed

lemma load_model_tokenizer_failure:
  assumes "pipeline a = Obj p" and "\<And>src. tokenizer_error E src = Some e"
  shows "fst (load_model E a) = None \<and> pipeline (snd (load_model E a)) = Obj p"
proof -
  obtain c cls where lt:
    "load_try E a = (if c then load_fine_tuned E a cls else load_pretrained E a cls)"
    by (simp add: load_try_def Let_def)
  have "fst (load_try E a) = Some e \<and> pipeline (snd (load_try E a)) = Obj p"
    using assms
    by (cases c)
       (simp_all add: lt load_fine_tuned_def load_pretrained_def tokenizer_from_pretrained_def
          emit_def Let_def)
  then show ?thesis
    by (cases "load_try E a") (simp add: load_model_def emit_def)
qed

text \<open>
  C1. With a pipeline in place, tokenizer and model loaded, and the construction of
  the new pipeline failing: line 115 has already deleted the attribute, the handler's
  test \<open>self.pipeline is None\<close> raises \<open>AttributeError\<close>, which leaves \<open>load_model\<close>;
  the analyzer is left without the attribute, and the next batch fails on line 126.
\<close>

theorem load_model_failure_loses_pipeline:
  "pipeline serving_analyzer = Obj loaded_pipeline
   \<and> fst (load_try pipeline_fails_env serving_analyzer) = Some (LibraryError ''out of memory'')
   \<and> fst (load_model pipeline_fails_env serving_analyzer) = Some no_pipeline_attr
   \<and> pipeline (snd (load_model pipeline_fails_env serving_analyzer)) = Deleted
   \<and> fst (predict_batch pipeline_fails_env
            (snd (load_model pipeline_fails_env serving_analyzer)) [''great product''])
       = Inl no_pipeline_attr"
  by (simp add: load_model_def load_try_def load_pretrained_def install_def
      pipeline_fails_env_def serving_analyzer_def new_analyzer_def emit_def
      tokenizer_from_pretrained_def model_from_pretrained_def make_pipeline_def
      predict_batch_def)

text \<open>
  C10. When the pipeline answers, \<open>_predict_batch\<close> returns one dictionary for each raw
  one, in order: the label is \<open>positive\<close> exactly when the raw label in upper case is
  \<open>POSITIVE\<close> and \<open>negative\<close> for every other raw label, and the score is the raw
  score.
\<close>

theorem predict_batch_labels:
  assumes "pipeline a = Obj p" and "invoke E p texts = Inr raws"
  shows "\<exists>outs. fst (predict_batch E a texts) = Inr outs
     \<and> length outs = length raws
     \<and> (\<forall>i < length raws.
          (label (outs ! i) = ''positive'' \<longleftrightarrow> upper (label (raws ! i)) = ''POSITIVE'')
        \<and> (label (outs ! i) = ''negative'' \<longleftrightarrow> upper (label (raws ! i)) \<noteq> ''POSITIVE'')
        \<and> score (outs ! i) = score (raws ! i))"
  using assms by (simp add: predict_batch_def convert_def)

theorem predict_batch_labels_witness:
  "\<exists>outs. fst (predict_batch fine_tuned_env serving_analyzer [''great product'', ''ok'']) = Inr outs
     \<and> length outs = 2
     \<and> label (outs ! 0) = ''positive'' \<and> score (outs ! 0) = 9/10
     \<and> label (outs ! 1) = ''negative'' \<and> score (outs ! 1) = 1/2"
proof -
  let ?raws = "[\<lparr>label = ''Positive'', score = 9/10\<rparr>, \<lparr>label = ''NEUTRAL'', score = 1/2\<rparr>]"
  have p: "pipeline serving_analyzer = Obj loaded_pipeline"
    by (simp add: serving_analyzer_def)
  have r: "invoke fine_tuned_env loaded_pipeline [''great product'', ''ok''] = Inr ?raws"
    by (simp add: fine_tuned_env_def sample_invoke_def)
  have u0: "upper ''Positive'' = ''POSITIVE''" by code_simp
  have u1: "upper ''NEUTRAL'' \<noteq> ''POSITIVE''" by code_simp
  from predict_batch_labels [OF p r] obtain outs where
    o: "fst (predict_batch fine_tuned_env serving_analyzer [''great product'', ''ok'']) = Inr outs"
    and l: "length outs = length ?raws"
    and a: "\<forall>i < length ?raws.
          (label (outs ! i) = ''positive'' \<longleftrightarrow> upper (label (?raws ! i)) = ''POSITIVE'')
        \<and> (label (outs ! i) = ''negative'' \<longleftrightarrow> upper (label (?raws ! i)) \<noteq> ''POSITIVE'')
        \<and> score (outs ! i) = score (?raws ! i)"
    by blast
  from a have "label (outs ! 0) = ''positive'' \<and> score (outs ! 0) = 9/10"
    using u0 by (auto dest!: spec [of _ 0])
  moreover from a have "label (outs ! 1) = ''negative'' \<and> score (outs ! 1) = 1/2"
    using u1 by (auto dest!: spec [of _ 1])
  ultimately show ?thesis using o l by simp
qed

section \<open>Reload and inference as threads\<close>

text \<open>
  The pieces, run one after the other by a thread alone, are the methods: nothing is
  lost or added by cutting them.
\<close>

lemma install_in_pieces:
  "install E a m tok =
     (case drop_old a of
        (Some e, a1) \<Rightarrow> (Some e, a1)
      | (None, a1) \<Rightarrow> build_new E a1 m tok)"
  by (cases "pipeline a"; cases "pipeline_error E m tok (framework a)")
     (simp_all add: install_def drop_old_def build_new_def make_pipeline_def emit_def)

lemma load_try_in_pieces:
  "load_try E a =
     (case load_sources E a of
        (Inl e, a1) \<Rightarrow> (Some e, a1)
      | (Inr (m, tok), a1) \<Rightarrow> install E a1 m tok)"
proof -
  define cls where "cls = (if framework a = ''pt'' then AutoModelForSequenceClassification
                         else TFAutoModelForSequenceClassification)"
  define c where "c = (path_exists E (model_path a) \<and> path_exists E (os_path_join (model_path a)
      (if framework a = ''pt'' then ''pytorch_model.bin'' else ''tf_model.h5'')))"
  define fp where "fp = (framework a = ''tf''
      \<and> path_exists E (os_path_join (model_path a) ''pytorch_model.bin''))"
  define f1 where "f1 = emit (LoadingFineTuned (framework a) (model_path a)) a"
  define p1 where "p1 = emit (LoadingPretrained (framework a) (model_name a)) a"
  have lt: "load_try E a = (if c then load_fine_tuned E a cls else load_pretrained E a cls)"
    unfolding c_def cls_def by (simp add: load_try_def Let_def)
  have ls: "load_sources E a =
      (if c then
         (case tokenizer_from_pretrained E (model_path a) of
            Inl e \<Rightarrow> (Inl e, f1)
          | Inr tok \<Rightarrow>
              (case model_from_pretrained E cls (model_path a) False of
                 Inl e \<Rightarrow> (Inl e, f1)
               | Inr m \<Rightarrow> (Inr (m, tok), f1)))
       else
         (case tokenizer_from_pretrained E (model_name a) of
            Inl e \<Rightarrow> (Inl e, p1)
          | Inr tok \<Rightarrow>
              (case model_from_pretrained E cls (model_name a) fp of
                 Inl e \<Rightarrow> (Inl e, p1)
               | Inr m \<Rightarrow> (Inr (m, tok), p1))))"
    unfolding c_def cls_def fp_def f1_def p1_def by (simp add: load_sources_def Let_def)
  have lf: "load_fine_tuned E a cls =
      (case tokenizer_from_pretrained E (model_path a) of
         Inl e \<Rightarrow> (Some e, f1)
       | Inr tok \<Rightarrow>
           (case model_from_pretrained E cls (model_path a) False of
              Inl e \<Rightarrow> (Some e, f1)
            | Inr m \<Rightarrow> install E f1 m tok))"
    unfolding f1_def by (simp add: load_fine_tuned_def Let_def)
  have lp: "load_pretrained E a cls =
      (case tokenizer_from_pretrained E (model_name a) of
         Inl e \<Rightarrow> (Some e, p1)
       | Inr tok \<Rightarrow>
           (case model_from_pretrained E cls (model_name a) fp of
              Inl e \<Rightarrow> (Some e, p1)
            | Inr m \<Rightarrow> install E p1 m tok))"
    unfolding p1_def fp_def by (simp add: load_pretrained_def Let_def)
  show ?thesis
  proof (cases c)
    case True
    then show ?thesis
      by (simp add: lt ls lf split: sum.splits)
  next
    case False
    then show ?thesis
      by (simp add: lt ls lp split: sum.splits)
  qed
qed

lemma load_model_after_try_pieces:
  "load_model E a =
     (case load_try E a of
        (None, a1) \<Rightarrow> (None, a1)
      | (Some e, a1) \<Rightarrow> load_except e a1)"
  by (simp add: load_model_def load_except_def split: prod.splits option.splits)

lemma load_model_in_pieces:
  "load_model E a =
     (case load_sources E a of
        (Inl e, a1) \<Rightarrow> load_except e a1
      | (Inr (m, tok), a1) \<Rightarrow>
          (case drop_old a1 of
             (Some e, a2) \<Rightarrow> load_except e a2
           | (None, a2) \<Rightarrow>
               (case build_new E a2 m tok of
                  (Some e, a3) \<Rightarrow> load_except e a3
                | (None, a3) \<Rightarrow> (None, a3))))"
  by (simp add: load_model_after_try_pieces load_try_in_pieces install_in_pieces
      split: prod.splits sum.splits option.splits)

lemma predict_batch_in_pieces:
  "predict_batch E a texts =
     (case predict_test a of
        Some e \<Rightarrow> (Inl e, a)
      | None \<Rightarrow> predict_body E a texts)"
  by (cases "pipeline a") (simp_all add: predict_batch_def predict_test_def predict_body_def)

text \<open>
  What the lock gives: in every state that a schedule reaches, at most one thread is
  inside a \<open>with\<close>, and the lock is held while one is.
\<close>

lemma lock_inv_change:
  assumes inv: "lock_inv s"
    and pl: "place_of s' = (place_of s)(t := p)"
    and lk: "load_lock s' =
        (if inside p then True else if inside (place_of s t) then False else load_lock s)"
    and free: "inside p \<and> \<not> inside (place_of s t) \<longrightarrow> \<not> load_lock s"
  shows "lock_inv s'"
proof -
  have held: "load_lock s" if "inside (place_of s u)" for u
    using inv that by (auto simp: lock_inv_def)
  have one: "u = v" if "inside (place_of s u)" "inside (place_of s v)" for u v
    using inv that by (simp add: lock_inv_def)
  have some: "\<exists>u. inside (place_of s u)" if "load_lock s"
    using inv that by (simp add: lock_inv_def)
  have at: "inside (place_of s' u) = (if u = t then inside p else inside (place_of s u))" for u
    by (simp add: pl)
  show ?thesis
  proof (cases "inside p")
    case True
    have others: "\<not> inside (place_of s u)" if "u \<noteq> t" for u
    proof (cases "inside (place_of s t)")
      case True
      with one [of u t] that show ?thesis by blast
    next
      case False
      with free \<open>inside p\<close> have "\<not> load_lock s" by simp
      with held [of u] show ?thesis by blast
    qed
    have eq: "inside (place_of s' u) = (u = t)" for u
      using True others [of u] by (simp add: at)
    have "load_lock s'" using True by (simp add: lk)
    then show ?thesis by (simp add: lock_inv_def eq)
  next
    case False
    note notp = this
    show ?thesis
    proof (cases "inside (place_of s t)")
      case True
      have eq: "inside (place_of s' u) = False" for u
        using notp one [of u t] True by (auto simp: at)
      have "\<not> load_lock s'" using notp True by (simp add: lk)
      then show ?thesis by (simp add: lock_inv_def eq)
    next
      case False
      have eq: "inside (place_of s' u) = inside (place_of s u)" for u
        using notp False by (simp add: at)
      have "load_lock s' = load_lock s" using notp False by (simp add: lk)
      then show ?thesis using inv by (simp add: lock_inv_def eq)
    qed
  qed
qed

lemma thread_step_shape:
  assumes step: "thread_step E s t = Some s'"
    and held: "inside (place_of s t) \<longrightarrow> load_lock s"
  shows "place_of s' = (place_of s)(t := place_of s' t)"
    and "load_lock s' =
        (if inside (place_of s' t) then True
         else if inside (place_of s t) then False else load_lock s)"
    and "inside (place_of s' t) \<and> \<not> inside (place_of s t) \<longrightarrow> \<not> load_lock s"
proof -
  have "place_of s' = (place_of s)(t := place_of s' t)
      \<and> load_lock s' =
          (if inside (place_of s' t) then True
           else if inside (place_of s t) then False else load_lock s)
      \<and> (inside (place_of s' t) \<and> \<not> inside (place_of s t) \<longrightarrow> \<not> load_lock s)"
  proof (cases "place_of s t")
    case Outside
    with step show ?thesis by (simp add: thread_step_def)
  next
    case LoadEnter
    with step show ?thesis
      by (auto simp: thread_step_def at_place_def split: if_splits)
  next
    case LoadAt98
    with step held show ?thesis
      by (auto simp: thread_step_def at_place_def split: prod.splits sum.splits)
  next
    case (LoadAt114 m tok)
    with step held show ?thesis
      by (auto simp: thread_step_def at_place_def split: prod.splits option.splits)
  next
    case (LoadAt117 m tok)
    with step held show ?thesis
      by (auto simp: thread_step_def at_place_def leave_def split: prod.splits option.splits)
  next
    case (LoadAt120 e)
    with step held show ?thesis
      by (auto simp: thread_step_def at_place_def leave_def split: prod.splits)
  next
    case (PredictAt126 texts)
    with step show ?thesis
      by (auto simp: thread_step_def at_place_def leave_def split: option.splits)
  next
    case (PredictEnter texts)
    with step show ?thesis
      by (auto simp: thread_step_def at_place_def split: if_splits)
  next
    case (PredictAt131 texts)
    with step held show ?thesis
      by (auto simp: thread_step_def at_place_def leave_def split: prod.splits)
  qed
  then show "place_of s' = (place_of s)(t := place_of s' t)"
    and "load_lock s' =
        (if inside (place_of s' t) then True
         else if inside (place_of s t) then False else load_lock s)"
    and "inside (place_of s' t) \<and> \<not> inside (place_of s t) \<longrightarrow> \<not> load_lock s"
    by blast+
qed

lemma lock_inv_thread_step:
  assumes inv: "lock_inv s" and step: "thread_step E s t = Some s'"
  shows "lock_inv s'"
proof -
  have held: "inside (place_of s t) \<longrightarrow> load_lock s"
    using inv by (auto simp: lock_inv_def)
  show ?thesis
    by (rule lock_inv_change [OF inv thread_step_shape [OF step held]])
qed

lemma lock_inv_move_step:
  assumes inv: "lock_inv s" and step: "move_step E s m = Some s'"
  shows "lock_inv s'"
proof (cases m)
  case (CallLoadModel t)
  with step have "place_of s t = Outside" and "s' = at_place s t LoadEnter"
    by (simp_all split: if_splits)
  then show ?thesis
    by (intro lock_inv_change [OF inv, of s' t LoadEnter]) (simp_all add: at_place_def)
next
  case (CallPredictBatch t texts)
  with step have "place_of s t = Outside" and "s' = at_place s t (PredictAt126 texts)"
    by (simp_all split: if_splits)
  then show ?thesis
    by (intro lock_inv_change [OF inv, of s' t "PredictAt126 texts"]) (simp_all add: at_place_def)
next
  case (Step t)
  with step show ?thesis by (simp add: lock_inv_thread_step [OF inv])
qed

lemma lock_inv_moves: "lock_inv s \<Longrightarrow> moves E s ms = Some s' \<Longrightarrow> lock_inv s'"
proof (induction ms arbitrary: s)
  case Nil
  then show ?case by simp
next
  case (Cons m ms)
  then show ?case by (auto split: option.splits dest: lock_inv_move_step)
qed

lemma one_thread_inside:
  assumes "moves E (threads_init a) ms = Some s" and "inside (place_of s t)"
  shows "load_lock s" and "inside (place_of s u) \<Longrightarrow> u = t"
    and "place_of s u = LoadEnter \<or> place_of s u = PredictEnter texts \<Longrightarrow> thread_step E s u = None"
proof -
  have "lock_inv (threads_init a)"
    by (simp add: lock_inv_def threads_init_def)
  from lock_inv_moves [OF this assms(1)] have inv: "lock_inv s" .
  from inv assms(2) show l: "load_lock s" by (auto simp: lock_inv_def)
  from inv assms(2) show "inside (place_of s u) \<Longrightarrow> u = t" by (simp add: lock_inv_def)
  from l show "place_of s u = LoadEnter \<or> place_of s u = PredictEnter texts \<Longrightarrow> thread_step E s u = None"
    by (auto simp: thread_step_def)
qed

text \<open>
  C2. A reload in which every library call succeeds has deleted the old pipeline
  (line 115) and is building the new one (line 117), holding the lock. A batch handed
  to \<open>_predict_batch\<close> at that moment does not wait for the lock: the test of line 126
  reads \<open>self.pipeline\<close> outside the lock, finds no attribute, and the call ends with
  \<open>AttributeError\<close> while the reload still holds the lock. The reload then completes
  and installs the new pipeline. A batch that arrives one step earlier, before line
  115, passes the test and waits: its next step is not possible while the lock is held.
\<close>

theorem batch_during_reload_fails:
  "map_option observe (moves fine_tuned_env (threads_init serving_analyzer) batch_during_reload)
     = Some (True,
             LoadAt117 (Model AutoModelForSequenceClassification ''./model'' False)
               (Tokenizer ''./model''),
             Outside,
             Some (PredictResult (Inl no_pipeline_attr)),
             Deleted)
   \<and> map_option observe
       (moves fine_tuned_env (threads_init serving_analyzer) (batch_during_reload @ [Step 0]))
     = Some (False, Outside, Outside,
             Some (PredictResult (Inl no_pipeline_attr)),
             Obj (Pipeline (Model AutoModelForSequenceClassification ''./model'' False)
                    (Tokenizer ''./model'') ''pt''))
   \<and> map_option observe
       (moves fine_tuned_env (threads_init serving_analyzer)
          [CallLoadModel 0, Step 0, Step 0, CallPredictBatch 1 [''great product''], Step 1])
     = Some (True,
             LoadAt114 (Model AutoModelForSequenceClassification ''./model'' False)
               (Tokenizer ''./model''),
             PredictEnter [''great product''],
             None,
             Obj loaded_pipeline)
   \<and> moves fine_tuned_env (threads_init serving_analyzer)
          [CallLoadModel 0, Step 0, Step 0, CallPredictBatch 1 [''great product''],
           Step 1, Step 1]
     = None"
  by (simp add: batch_during_reload_def threads_init_def thread_step_def at_place_def
      leave_def observe_def load_sources_def drop_old_def build_new_def predict_test_def
      fine_tuned_env_def serving_analyzer_def new_analyzer_def emit_def os_path_join_def
      tokenizer_from_pretrained_def model_from_pretrained_def make_pipeline_def)

section \<open>Validation in the facade\<close>

lemma all_dropWhile_iff: "(\<forall>x \<in> set (dropWhile P s). P x) \<longleftrightarrow> dropWhile P s = []"
proof
  assume h: "\<forall>x \<in> set (dropWhile P s). P x"
  show "dropWhile P s = []"
  proof (rule ccontr)
    assume ne: "dropWhile P s \<noteq> []"
    then have "\<not> P (hd (dropWhile P s))" by (rule hd_dropWhile)
    moreover from ne have "hd (dropWhile P s) \<in> set (dropWhile P s)" by simp
    ultimately show False using h by blast
  qed
next
  assume "dropWhile P s = []"
  then show "\<forall>x \<in> set (dropWhile P s). P x" by (simp del: dropWhile_eq_Nil_conv)
qed

lemma strip_empty_iff: "strip s = [] \<longleftrightarrow> (\<forall>c \<in> set s. is_space c)"
  by (simp add: strip_def all_dropWhile_iff)

text \<open>
  C7. A text that is empty or consists of whitespace only makes \<open>Query.predict\<close> raise
  \<open>ValueError\<close> at once and leaves the batcher as it was: nothing is put on the queue,
  no future is created, so no batch can contain it. Every other text is handed to
  \<open>submit\<close>, which puts it on the queue with a new future.
\<close>

theorem query_predict_validation:
  "((\<forall>c \<in> set text. is_space c) \<longrightarrow>
      query_predict text b = (Inl (ValueError ''Text input cannot be empty.''), b))
   \<and> (\<not> (\<forall>c \<in> set text. is_space c) \<longrightarrow>
      query_predict text b = (Inr (next_future b), snd (submit text b))
      \<and> queue (snd (query_predict text b)) = queue b @ [(text, next_future b)])"
  by (simp add: query_predict_def analyzer_predict_def submit_def strip_empty_iff)

theorem query_predict_validation_witness:
  "query_predict [CHR '' '', CHR 0x09, CHR 0x0A] (new_batcher :: result batcher)
     = (Inl (ValueError ''Text input cannot be empty.''), new_batcher)
   \<and> query_predict ''ok'' (new_batcher :: result batcher)
     = (Inr 0, snd (submit ''ok'' new_batcher))
   \<and> queue (snd (query_predict ''ok'' (new_batcher :: result batcher))) = [(''ok'', 0)]"
proof -
  have sp: "\<forall>c \<in> set [CHR '' '', CHR 0x09, CHR 0x0A]. is_space c"
    by (simp add: is_space_def)
  have ns: "\<not> (\<forall>c \<in> set ''ok''. is_space c)"
    by (simp add: is_space_def)
  note v = query_predict_validation [where b = "new_batcher :: result batcher"]
  from v [of "[CHR '' '', CHR 0x09, CHR 0x0A]"] sp
  have a: "query_predict [CHR '' '', CHR 0x09, CHR 0x0A] (new_batcher :: result batcher)
     = (Inl (ValueError ''Text input cannot be empty.''), new_batcher)"
    by blast
  have nb: "next_future (new_batcher :: result batcher) = 0"
    "queue (new_batcher :: result batcher) = []"
    by (simp_all add: new_batcher_def)
  from v [of "''ok''"]
  have "\<not> (\<forall>c \<in> set ''ok''. is_space c) \<longrightarrow>
      query_predict ''ok'' (new_batcher :: result batcher)
       = (Inr (next_future (new_batcher :: result batcher)), snd (submit ''ok'' new_batcher))
     \<and> queue (snd (query_predict ''ok'' (new_batcher :: result batcher)))
       = queue (new_batcher :: result batcher)
           @ [(''ok'', next_future (new_batcher :: result batcher))]"
    by (rule conjunct2)
  from this ns
  have "query_predict ''ok'' (new_batcher :: result batcher)
       = (Inr (next_future (new_batcher :: result batcher)), snd (submit ''ok'' new_batcher))
     \<and> queue (snd (query_predict ''ok'' (new_batcher :: result batcher)))
       = queue (new_batcher :: result batcher)
           @ [(''ok'', next_future (new_batcher :: result batcher))]"
    by (rule mp)
  then have b: "query_predict ''ok'' (new_batcher :: result batcher)
       = (Inr 0, snd (submit ''ok'' new_batcher))
     \<and> queue (snd (query_predict ''ok'' (new_batcher :: result batcher))) = [(''ok'', 0)]"
    unfolding nb append_Nil .
  from a b show ?thesis by blast
qed

section \<open>The watcher\<close>




section \<open>The batches of the worker\<close>

lemma is_done_iff: "is_done s f \<longleftrightarrow> f \<in> fst ` set s"
  by (simp add: is_done_def map_of_eq_None_iff)

lemma set_results_fresh:
  "distinct (map fst frs) \<Longrightarrow> fst ` set frs \<inter> fst ` set s = {} \<Longrightarrow>
     set_results frs s = (None, s @ map (\<lambda>(f, r). (f, Result r)) frs)"
proof (induction frs arbitrary: s)
  case Nil
  then show ?case by simp
next
  case (Cons fr frs)
  obtain f r where fr: "fr = (f, r)" by (cases fr)
  from Cons.prems have nd: "\<not> is_done s f"
    by (auto simp: is_done_iff fr)
  from Cons.prems have d: "distinct (map fst frs)" and nf: "f \<notin> fst ` set frs"
    by (auto simp: fr)
  from Cons.prems nf have disj: "fst ` set frs \<inter> fst ` set (s @ [(f, Result r)]) = {}"
    by (auto simp: fr)
  show ?case
    using Cons.IH [OF d disj] nd by (simp add: fr set_result_def)
qed

lemma set_exceptions_fresh:
  "distinct fs \<Longrightarrow> set fs \<inter> fst ` set s = {} \<Longrightarrow>
     set_exceptions fs e s = (None, s @ map (\<lambda>f. (f, Exception e)) fs)"
proof (induction fs arbitrary: s)
  case Nil
  then show ?case by simp
next
  case (Cons f fs)
  from Cons.prems have nd: "\<not> is_done s f"
    by (auto simp: is_done_iff)
  from Cons.prems have d: "distinct fs" and nf: "f \<notin> set fs"
    by auto
  from Cons.prems nf have disj: "set fs \<inter> fst ` set (s @ [(f, Exception e)]) = {}"
    by auto
  show ?case
    using Cons.IH [OF d disj] nd by (simp add: set_exception_def)
qed

lemma process_batch_fresh:
  assumes d: "distinct (map snd (items b))"
    and fresh: "snd ` set (items b) \<inter> fst ` set (store b) = {}"
  shows "process_batch predict b =
     b\<lparr>batches := batches b @ [items b],
       store := store b @ batch_store predict (length (batches b)) (items b),
       wlogged := wlogged b @ (case predict (length (batches b)) (map fst (items b)) of
                                 Inl e \<Rightarrow> [e] | Inr results \<Rightarrow> [])\<rparr>"
proof (cases "predict (length (batches b)) (map fst (items b))")
  case (Inl e)
  have "set (map snd (items b)) \<inter> fst ` set (store b) = {}"
    using fresh by simp
  from set_exceptions_fresh [OF d this, of e]
  show ?thesis
    using Inl by (simp add: process_batch_def fail_batch_def batch_store_def Let_def)
next
  case (Inr results)
  have dz: "distinct (map fst (zip (map snd (items b)) results))"
    using d by (simp add: map_fst_zip_take distinct_take)
  have "fst ` set (zip (map snd (items b)) results) \<subseteq> snd ` set (items b)"
    by (auto dest: set_zip_leftD)
  with fresh have "fst ` set (zip (map snd (items b)) results) \<inter> fst ` set (store b) = {}"
    by blast
  from set_results_fresh [OF dz this]
  show ?thesis
    using Inr by (simp add: process_batch_def batch_store_def Let_def)
qed

lemma expected_store_append:
  "expected_store predict k (bs @ [batch])
     = expected_store predict k bs @ batch_store predict (k + length bs) batch"
  by (induction bs arbitrary: k) simp_all

lemma batch_store_keys: "fst ` set (batch_store predict k batch) \<subseteq> snd ` set batch"
proof (cases "predict k (map fst batch)")
  case (Inl e)
  then have "fst ` set (batch_store predict k batch) = snd ` set batch"
    by (simp add: batch_store_def image_image)
  then show ?thesis by simp
next
  case (Inr results)
  then show ?thesis
    by (force simp: batch_store_def dest: set_zip_leftD)
qed

lemma expected_store_keys:
  "fst ` set (expected_store predict k bs) \<subseteq> snd ` set (concat bs)"
proof (induction bs arbitrary: k)
  case Nil
  then show ?case by simp
next
  case (Cons batch bs)
  show ?case
    using batch_store_keys [of predict k batch] Cons.IH [of "Suc k"]
    by (simp add: image_Un) blast
qed

lemma dispatch_batch_fresh:
  assumes "distinct (map snd (items b))"
    and "snd ` set (items b) \<inter> fst ` set (store b) = {}"
    and "crashed b = None"
  shows "dispatch_batch predict b =
     b\<lparr>batches := batches b @ [items b],
       store := store b @ batch_store predict (length (batches b)) (items b),
       wlogged := wlogged b @ (case predict (length (batches b)) (map fst (items b)) of
                                 Inl e \<Rightarrow> [e] | Inr results \<Rightarrow> []),
       items := []\<rparr>"
  using assms(3) by (simp add: dispatch_batch_def process_batch_fresh [OF assms(1,2)])

lemma requests_distinct:
  assumes "all_requests b = zip texts [0..<length texts]"
  shows "distinct (map snd (items b))"
    and "snd ` set (concat (batches b)) \<inter> snd ` set (items b) = {}"
proof -
  have "map snd (all_requests b) = [0..<length texts]"
    by (simp add: assms)
  then have "distinct (map snd (all_requests b))" by simp
  then have D: "distinct (map snd (concat (batches b)) @ map snd (items b) @ map snd (queue b))"
    by (simp only: all_requests_def map_append)
  from D show "distinct (map snd (items b))"
    unfolding distinct_append by blast
  from D have "set (map snd (concat (batches b)))
      \<inter> (set (map snd (items b)) \<union> set (map snd (queue b))) = {}"
    unfolding distinct_append set_append by blast
  then have "set (map snd (concat (batches b))) \<inter> set (map snd (items b)) = {}"
    by blast
  then show "snd ` set (concat (batches b)) \<inter> snd ` set (items b) = {}"
    by (simp only: set_map)
qed

lemma inv_dispatch:
  assumes c: "crashed b = None"
    and n: "next_future b = length texts"
    and r: "all_requests b = zip texts [0..<length texts]"
    and s: "store b = expected_store predict 0 (batches b)"
    and ne: "[] \<notin> set (batches b)"
    and it: "items b \<noteq> []"
    and sz: "1 \<le> batch_size \<longrightarrow>
        (\<forall>batch \<in> set (batches b). int (length batch) \<le> batch_size)
        \<and> int (length (items b)) \<le> batch_size"
  shows "batcher_inv batch_size predict texts (dispatch_batch predict b)"
proof -
  note d = requests_distinct(1) [OF r] and disj = requests_distinct(2) [OF r]
  have keys: "fst ` set (store b) \<subseteq> snd ` set (concat (batches b))"
    unfolding s by (rule expected_store_keys)
  from disj keys have fresh: "snd ` set (items b) \<inter> fst ` set (store b) = {}"
    by blast
  note eq = dispatch_batch_fresh [OF d fresh c, of predict]
  have st: "store (dispatch_batch predict b)
      = expected_store predict 0 (batches (dispatch_batch predict b))"
    by (simp add: eq s expected_store_append)
  have rq: "all_requests (dispatch_batch predict b) = zip texts [0..<length texts]"
    using r by (simp add: eq all_requests_def)
  show ?thesis
    unfolding batcher_inv_def
    using c n rq st ne it sz by (simp add: eq)
qed

lemma inv_submit:
  assumes "batcher_inv batch_size predict texts b"
  shows "batcher_inv batch_size predict (texts @ [text]) (snd (submit text b))"
proof -
  from assms have n: "next_future b = length texts"
    and r: "all_requests b = zip texts [0..<length texts]"
    by (simp_all add: batcher_inv_def)
  have "all_requests (snd (submit text b)) = all_requests b @ [(text, next_future b)]"
    by (simp add: submit_def all_requests_def)
  then have "all_requests (snd (submit text b)) = zip (texts @ [text]) [0..<length (texts @ [text])]"
    by (simp add: r n)
  then show ?thesis
    using assms by (simp add: batcher_inv_def submit_def)
qed

lemma inv_get:
  assumes inv: "batcher_inv batch_size predict texts b"
  shows "batcher_inv batch_size predict texts (worker_get batch_size predict b)"
proof -
  from inv have c: "crashed b = None"
    and n: "next_future b = length texts"
    and r: "all_requests b = zip texts [0..<length texts]"
    and s: "store b = expected_store predict 0 (batches b)"
    and ne: "[] \<notin> set (batches b)"
    and sz: "1 \<le> batch_size \<longrightarrow>
        (\<forall>batch \<in> set (batches b). int (length batch) \<le> batch_size)
        \<and> int (length (items b)) < batch_size"
    by (simp_all add: batcher_inv_def)
  show ?thesis
  proof (cases "queue b")
    case Nil
    show ?thesis
    proof (cases "items b = []")
      case True
      with Nil c inv show ?thesis by (simp add: worker_get_def queue_get_def)
    next
      case False
      from sz have "1 \<le> batch_size \<longrightarrow>
        (\<forall>batch \<in> set (batches b). int (length batch) \<le> batch_size)
        \<and> int (length (items b)) \<le> batch_size" by auto
      from inv_dispatch [OF c n r s ne False this]
      show ?thesis using Nil c False by (simp add: worker_get_def queue_get_def)
    qed
  next
    case (Cons x q)
    define b2 where "b2 = b\<lparr>queue := q, items := items b @ [x]\<rparr>"
    have c2: "crashed b2 = None" and n2: "next_future b2 = length texts"
      and s2: "store b2 = expected_store predict 0 (batches b2)"
      and ne2: "[] \<notin> set (batches b2)" and it2: "items b2 \<noteq> []"
      using c n s ne by (simp_all add: b2_def)
    have r2: "all_requests b2 = zip texts [0..<length texts]"
      using r Cons by (simp add: b2_def all_requests_def)
    have wg: "worker_get batch_size predict b =
        (if int (length (items b2)) < batch_size then b2 else dispatch_batch predict b2)"
      using c Cons by (simp add: worker_get_def queue_get_def b2_def Let_def)
    show ?thesis
    proof (cases "int (length (items b2)) < batch_size")
      case True
      then have "batcher_inv batch_size predict texts b2"
        unfolding batcher_inv_def using c2 n2 r2 s2 ne2 sz by (simp add: b2_def)
      with True wg show ?thesis by simp
    next
      case False
      have "1 \<le> batch_size \<longrightarrow>
        (\<forall>batch \<in> set (batches b2). int (length batch) \<le> batch_size)
        \<and> int (length (items b2)) \<le> batch_size"
        using sz by (auto simp: b2_def)
      from inv_dispatch [OF c2 n2 r2 s2 ne2 it2 this] False wg
      show ?thesis by simp
    qed
  qed
qed

lemma inv_new: "batcher_inv batch_size predict [] new_batcher"
  by (simp add: batcher_inv_def new_batcher_def all_requests_def)

lemma submitted_append: "submitted (evs @ evs') = submitted evs @ submitted evs'"
  by (induction evs rule: submitted.induct) simp_all

lemma run_snoc: "run batch_size predict (evs @ [ev])
    = batcher_step batch_size predict (run batch_size predict evs) ev"
  by (simp add: run_def)

lemma inv_run: "batcher_inv batch_size predict (submitted evs) (run batch_size predict evs)"
proof (induction evs rule: rev_induct)
  case Nil
  show ?case by (simp add: run_def inv_new)
next
  case (snoc ev evs)
  show ?case
  proof (cases ev)
    case (Submit tx)
    with inv_submit [OF snoc.IH, of tx] show ?thesis
      by (simp add: run_snoc batcher_step_def submitted_append)
  next
    case Get
    with inv_get [OF snoc.IH] show ?thesis
      by (simp add: run_snoc batcher_step_def submitted_append)
  qed
qed

lemma batch_store_distinct:
  "distinct (map snd batch) \<Longrightarrow> distinct (map fst (batch_store predict k batch))"
proof (cases "predict k (map fst batch)")
  case (Inl e)
  assume "distinct (map snd batch)"
  moreover have "map fst (batch_store predict k batch) = map snd batch"
    using Inl by (simp add: batch_store_def comp_def)
  ultimately show ?thesis by simp
next
  case (Inr results)
  assume d: "distinct (map snd batch)"
  have "map fst (batch_store predict k batch) = map fst (zip (map snd batch) results)"
    using Inr by (simp add: batch_store_def comp_def case_prod_unfold)
  then show ?thesis using d by (simp add: map_fst_zip_take distinct_take)
qed

lemma expected_store_distinct:
  "distinct (map snd (concat bs)) \<Longrightarrow> distinct (map fst (expected_store predict k bs))"
proof (induction bs arbitrary: k)
  case Nil
  then show ?case by simp
next
  case (Cons batch bs)
  from Cons.prems have d1: "distinct (map snd batch)" and d2: "distinct (map snd (concat bs))"
    and disj: "snd ` set batch \<inter> snd ` set (concat bs) = {}"
    by simp_all
  have "fst ` set (batch_store predict k batch) \<inter> fst ` set (expected_store predict (Suc k) bs) = {}"
    using batch_store_keys [of predict k batch] expected_store_keys [of predict "Suc k" bs] disj
    by blast
  then show ?case
    using batch_store_distinct [OF d1, of predict k] Cons.IH [OF d2, of "Suc k"]
    by simp
qed

lemma batch_store_in_expected:
  "k < length bs \<Longrightarrow> set (batch_store predict (k0 + k) (bs ! k)) \<subseteq> set (expected_store predict k0 bs)"
proof (induction bs arbitrary: k k0)
  case Nil
  then show ?case by simp
next
  case (Cons batch bs)
  show ?case
  proof (cases k)
    case 0
    then show ?thesis by simp
  next
    case (Suc k')
    with Cons.prems have "k' < length bs" by simp
    from Cons.IH [OF this, of "Suc k0"] Suc show ?thesis by auto
  qed
qed

lemma inv_store_distinct:
  assumes "batcher_inv batch_size predict texts b"
  shows "distinct (map fst (store b))"
proof -
  from assms have r: "all_requests b = zip texts [0..<length texts]"
    and s: "store b = expected_store predict 0 (batches b)"
    by (simp_all add: batcher_inv_def)
  have "map snd (all_requests b) = [0..<length texts]"
    by (simp add: r)
  then have "distinct (map snd (all_requests b))" by simp
  then have "distinct (map snd (concat (batches b)))"
    by (simp add: all_requests_def)
  then show ?thesis unfolding s by (rule expected_store_distinct)
qed

lemma inv_batch_store:
  assumes "batcher_inv batch_size predict texts b" and "k < length (batches b)"
  shows "set (batch_store predict k (batches b ! k)) \<subseteq> set (store b)"
proof -
  from assms(1) have s: "store b = expected_store predict 0 (batches b)"
    by (simp add: batcher_inv_def)
  from batch_store_in_expected [OF assms(2), of predict 0] show ?thesis
    by (simp add: s)
qed

lemma completions_distinct:
  "distinct (map fst s) \<Longrightarrow> completions s f = (if f \<in> fst ` set s then 1 else 0)"
  unfolding completions_def
  by (induction s) (auto simp: image_iff)

lemma await_future_in_store:
  assumes "distinct (map fst (store b))" and "(f, out) \<in> set (store b)"
  shows "await_future b f = (case out of Result r \<Rightarrow> Some (Inr r) | Exception e \<Rightarrow> Some (Inl e))"
    and "completions (store b) f = 1"
proof -
  from assms have "map_of (store b) f = Some out" by simp
  then show "await_future b f = (case out of Result r \<Rightarrow> Some (Inr r) | Exception e \<Rightarrow> Some (Inl e))"
    by (simp add: await_future_def)
  from assms(2) have "f \<in> fst ` set (store b)" by force
  then show "completions (store b) f = 1"
    by (simp add: completions_distinct [OF assms(1)])
qed

lemma batch_failed:
  assumes inv: "batcher_inv batch_size predict texts b"
    and k: "k < length (batches b)"
    and p: "predict k (map fst (batches b ! k)) = Inl e"
    and m: "(t, f) \<in> set (batches b ! k)"
  shows "await_future b f = Some (Inl e)" and "completions (store b) f = 1"
proof -
  from m have "(f, Exception e) \<in> set (batch_store predict k (batches b ! k))"
    using p by (force simp: batch_store_def)
  with inv_batch_store [OF inv k] have "(f, Exception e) \<in> set (store b)" by blast
  from await_future_in_store [OF inv_store_distinct [OF inv] this]
  show "await_future b f = Some (Inl e)" and "completions (store b) f = 1" by simp_all
qed

lemma batch_succeeded:
  assumes inv: "batcher_inv batch_size predict texts b"
    and k: "k < length (batches b)"
    and p: "predict k (map fst (batches b ! k)) = Inr results"
    and i: "i < length (batches b ! k)" "i < length results"
  shows "await_future b (snd (batches b ! k ! i)) = Some (Inr (results ! i))"
    and "completions (store b) (snd (batches b ! k ! i)) = 1"
proof -
  let ?batch = "batches b ! k"
  have "zip (map snd ?batch) results ! i = (snd (?batch ! i), results ! i)"
    using i by simp
  moreover have "i < length (zip (map snd ?batch) results)" using i by simp
  ultimately have "(snd (?batch ! i), results ! i) \<in> set (zip (map snd ?batch) results)"
    by (metis nth_mem)
  then have "(snd (?batch ! i), Result (results ! i)) \<in> set (batch_store predict k ?batch)"
    using p by (force simp: batch_store_def)
  with inv_batch_store [OF inv k] have "(snd (?batch ! i), Result (results ! i)) \<in> set (store b)"
    by blast
  from await_future_in_store [OF inv_store_distinct [OF inv] this]
  show "await_future b (snd (batches b ! k ! i)) = Some (Inr (results ! i))"
    and "completions (store b) (snd (batches b ! k ! i)) = 1" by simp_all
qed

lemma gets_funpow:
  "foldl (batcher_step batch_size predict) b (replicate n Get)
     = (worker_get batch_size predict ^^ n) b"
proof (induction n arbitrary: b)
  case 0
  show ?case by simp
next
  case (Suc n)
  have "batcher_step batch_size predict b Get = worker_get batch_size predict b"
    by (simp add: batcher_step_def)
  then show ?case
    by (simp add: Suc.IH funpow_swap1)
qed

lemma run_then_gets:
  "run batch_size predict (evs @ replicate n Get)
     = (worker_get batch_size predict ^^ n) (run batch_size predict evs)"
  by (simp add: run_def gets_funpow)

lemma inv_dispatch_eq:
  assumes c: "crashed b = None"
    and r: "all_requests b = zip texts [0..<length texts]"
    and s: "store b = expected_store predict 0 (batches b)"
  shows "dispatch_batch predict b =
     b\<lparr>batches := batches b @ [items b],
       store := store b @ batch_store predict (length (batches b)) (items b),
       wlogged := wlogged b @ (case predict (length (batches b)) (map fst (items b)) of
                                 Inl e \<Rightarrow> [e] | Inr results \<Rightarrow> []),
       items := []\<rparr>"
proof -
  note d = requests_distinct(1) [OF r] and disj = requests_distinct(2) [OF r]
  have keys: "fst ` set (store b) \<subseteq> snd ` set (concat (batches b))"
    unfolding s by (rule expected_store_keys)
  from disj keys have fresh: "snd ` set (items b) \<inter> fst ` set (store b) = {}"
    by blast
  show ?thesis by (rule dispatch_batch_fresh [OF d fresh c])
qed

text \<open>One \<open>get\<close> of the worker, in a state of a run, written out.\<close>

lemma worker_get_cases:
  assumes inv: "batcher_inv batch_size predict texts b"
  shows "queue b = [] \<Longrightarrow> items b = [] \<Longrightarrow> worker_get batch_size predict b = b"
    and "queue b = [] \<Longrightarrow> items b \<noteq> [] \<Longrightarrow>
      queue (worker_get batch_size predict b) = []
      \<and> items (worker_get batch_size predict b) = []
      \<and> batches (worker_get batch_size predict b) = batches b @ [items b]"
    and "queue b = x # q \<Longrightarrow> int (length (items b)) + 1 < batch_size \<Longrightarrow>
      queue (worker_get batch_size predict b) = q
      \<and> items (worker_get batch_size predict b) = items b @ [x]
      \<and> batches (worker_get batch_size predict b) = batches b"
    and "queue b = x # q \<Longrightarrow> \<not> int (length (items b)) + 1 < batch_size \<Longrightarrow>
      queue (worker_get batch_size predict b) = q
      \<and> items (worker_get batch_size predict b) = []
      \<and> batches (worker_get batch_size predict b) = batches b @ [items b @ [x]]"
proof -
  from inv have c: "crashed b = None"
    and r: "all_requests b = zip texts [0..<length texts]"
    and s: "store b = expected_store predict 0 (batches b)"
    by (simp_all add: batcher_inv_def)
  show "queue b = [] \<Longrightarrow> items b = [] \<Longrightarrow> worker_get batch_size predict b = b"
    using c by (simp add: worker_get_def queue_get_def)
  show "queue b = [] \<Longrightarrow> items b \<noteq> [] \<Longrightarrow>
      queue (worker_get batch_size predict b) = []
      \<and> items (worker_get batch_size predict b) = []
      \<and> batches (worker_get batch_size predict b) = batches b @ [items b]"
    using c by (simp add: worker_get_def queue_get_def inv_dispatch_eq [OF c r s])
  define b2 where "b2 = b\<lparr>queue := q, items := items b @ [x]\<rparr>"
  show "queue b = x # q \<Longrightarrow> int (length (items b)) + 1 < batch_size \<Longrightarrow>
      queue (worker_get batch_size predict b) = q
      \<and> items (worker_get batch_size predict b) = items b @ [x]
      \<and> batches (worker_get batch_size predict b) = batches b"
    using c by (simp add: worker_get_def queue_get_def Let_def)
  show "queue (worker_get batch_size predict b) = q
      \<and> items (worker_get batch_size predict b) = []
      \<and> batches (worker_get batch_size predict b) = batches b @ [items b @ [x]]"
    if q: "queue b = x # q" and big: "\<not> int (length (items b)) + 1 < batch_size"
  proof -
    have c2: "crashed b2 = None" and s2: "store b2 = expected_store predict 0 (batches b2)"
      using c s by (simp_all add: b2_def)
    have r2: "all_requests b2 = zip texts [0..<length texts]"
      using r q by (simp add: b2_def all_requests_def)
    have "worker_get batch_size predict b = dispatch_batch predict b2"
      using c q big by (simp add: worker_get_def queue_get_def b2_def Let_def)
    then show ?thesis
      by (simp add: inv_dispatch_eq [OF c2 r2 s2]) (simp add: b2_def)
  qed
qed

lemma worker_get_queue:
  assumes inv: "batcher_inv batch_size predict texts b"
  shows "queue (worker_get batch_size predict b) = tl (queue b)"
    and "queue b = [] \<Longrightarrow> items (worker_get batch_size predict b) = []"
proof -
  show "queue (worker_get batch_size predict b) = tl (queue b)"
  proof (cases "queue b")
    case Nil
    then show ?thesis
      using worker_get_cases(1,2) [OF inv] by (cases "items b = []") simp_all
  next
    case (Cons x q)
    then show ?thesis
      using worker_get_cases(3,4) [OF inv Cons]
      by (cases "int (length (items b)) + 1 < batch_size") simp_all
  qed
  show "queue b = [] \<Longrightarrow> items (worker_get batch_size predict b) = []"
    using worker_get_cases(1,2) [OF inv] by (cases "items b = []") simp_all
qed

lemma drain:
  assumes "batcher_inv batch_size predict texts b" and "length (queue b) = n"
  shows "queue ((worker_get batch_size predict ^^ Suc n) b) = []
       \<and> items ((worker_get batch_size predict ^^ Suc n) b) = []
       \<and> batcher_inv batch_size predict texts ((worker_get batch_size predict ^^ Suc n) b)"
  using assms
proof (induction n arbitrary: b)
  case 0
  then have q: "queue b = []" by simp
  from worker_get_queue [OF "0.prems"(1)] q inv_get [OF "0.prems"(1)]
  show ?case by simp
next
  case (Suc n)
  let ?b1 = "worker_get batch_size predict b"
  have inv1: "batcher_inv batch_size predict texts ?b1"
    by (rule inv_get [OF Suc.prems(1)])
  have "length (queue ?b1) = n"
    using worker_get_queue(1) [OF Suc.prems(1)] Suc.prems(2) by simp
  from Suc.IH [OF inv1 this] show ?case
    by (simp add: funpow_swap1)
qed

lemma gets_count:
  assumes "batcher_inv batch_size predict texts b" and "1 \<le> batch_size"
    and "length (queue b) = n"
  shows "length (batches ((worker_get batch_size predict ^^ n) b))
           = length (batches b) + (length (items b) + n) div nat batch_size
       \<and> length (items ((worker_get batch_size predict ^^ n) b))
           = (length (items b) + n) mod nat batch_size
       \<and> queue ((worker_get batch_size predict ^^ n) b) = []
       \<and> batcher_inv batch_size predict texts ((worker_get batch_size predict ^^ n) b)"
  using assms
proof (induction n arbitrary: b)
  case 0
  from "0.prems" have "int (length (items b)) < batch_size"
    by (simp add: batcher_inv_def)
  then have "length (items b) < nat batch_size" by linarith
  with "0.prems" show ?case by simp
next
  case (Suc n)
  let ?b1 = "worker_get batch_size predict b"
  let ?m = "nat batch_size"
  from Suc.prems obtain x q where q: "queue b = x # q" and lq: "length q = n"
    by (cases "queue b") simp_all
  have inv1: "batcher_inv batch_size predict texts ?b1"
    by (rule inv_get [OF Suc.prems(1)])
  have small: "int (length (items b)) < batch_size"
    using Suc.prems by (simp add: batcher_inv_def)
  show ?case
  proof (cases "int (length (items b)) + 1 < batch_size")
    case True
    from worker_get_cases(3) [OF Suc.prems(1) q True]
    have b1: "queue ?b1 = q" "items ?b1 = items b @ [x]" "batches ?b1 = batches b"
      by simp_all
    from Suc.IH [OF inv1 Suc.prems(2)] lq b1 show ?thesis
      by (simp add: funpow_swap1)
  next
    case False
    from worker_get_cases(4) [OF Suc.prems(1) q False]
    have b1: "queue ?b1 = q" "items ?b1 = []" "batches ?b1 = batches b @ [items b @ [x]]"
      by simp_all
    from False small have m: "Suc (length (items b)) = ?m" by linarith
    have pos: "0 < ?m" using Suc.prems(2) by simp
    have sum: "length (items b) + Suc n = ?m + n" using m by simp
    have "(?m + n) div ?m = Suc (n div ?m)" using pos by simp
    moreover have "(?m + n) mod ?m = n mod ?m" by simp
    ultimately have "(length (items b) + Suc n) div ?m = Suc (n div ?m)"
      and "(length (items b) + Suc n) mod ?m = n mod ?m"
      by (simp_all only: sum)
    with Suc.IH [OF inv1 Suc.prems(2)] lq b1 show ?thesis
      by (simp add: funpow_swap1)
  qed
qed

lemma run_submits:
  "items (run batch_size predict (map Submit texts)) = []
   \<and> batches (run batch_size predict (map Submit texts)) = []
   \<and> length (queue (run batch_size predict (map Submit texts))) = length texts"
proof (induction texts rule: rev_induct)
  case Nil
  show ?case by (simp add: run_def new_batcher_def)
next
  case (snoc t texts)
  then show ?case
    by (simp add: run_snoc batcher_step_def submit_def)
qed

lemma submitted_gets: "submitted (replicate n Get) = []"
  by (induction n) simp_all

lemma submitted_submits: "submitted (map Submit texts) = texts"
  by (induction texts) simp_all

lemma ceiling_batches:
  assumes "1 \<le> batch_size"
  shows "nat \<lceil>real n / real_of_int batch_size\<rceil>
       = n div nat batch_size + (if n mod nat batch_size = 0 then 0 else 1)"
proof -
  let ?m = "nat batch_size"
  have bs: "batch_size = int ?m" and pos: "0 < ?m" using assms by simp_all
  have "\<lceil>real n / real_of_int batch_size\<rceil> = - (- int n div batch_size)"
    using ceiling_divide_eq_div [of "int n" batch_size, where ?'a = real] by simp
  also have "\<dots> = (if int n mod batch_size = 0 then int n div batch_size
                      else int n div batch_size + 1)"
    using assms by (simp add: zdiv_zminus1_eq_if)
  also have "\<dots> = int (n div ?m + (if n mod ?m = 0 then 0 else 1))"
  proof -
    have d: "int n div batch_size = int (n div ?m)"
      by (subst bs) (simp only: zdiv_int)
    have m: "int n mod batch_size = int (n mod ?m)"
      by (subst bs) (simp only: zmod_int)
    show ?thesis unfolding d m by simp
  qed
  finally show ?thesis by simp
qed

lemma simultaneous_count:
  assumes "1 \<le> batch_size"
  shows "length (calls (run batch_size predict
            (map Submit texts @ replicate (Suc (length texts)) Get)))
       = nat \<lceil>real (length texts) / real_of_int batch_size\<rceil>"
proof -
  let ?g = "worker_get batch_size predict"
  let ?b0 = "run batch_size predict (map Submit texts)"
  let ?n = "length texts"
  let ?bn = "(?g ^^ ?n) ?b0"
  have inv0: "batcher_inv batch_size predict texts ?b0"
    using inv_run [of batch_size predict "map Submit texts"] by (simp add: submitted_submits)
  from run_submits [of batch_size predict texts]
  have i0: "items ?b0 = []" and b0: "batches ?b0 = []" and q0: "length (queue ?b0) = ?n"
    by simp_all
  from gets_count [OF inv0 assms q0]
  have bn: "length (batches ?bn) = ?n div nat batch_size"
    and itn: "length (items ?bn) = ?n mod nat batch_size"
    and qn: "queue ?bn = []"
    and invn: "batcher_inv batch_size predict texts ?bn"
    by (simp_all add: i0 b0)
  have "run batch_size predict (map Submit texts @ replicate (Suc ?n) Get) = ?g ?bn"
    unfolding run_then_gets by simp
  moreover have "length (batches (?g ?bn))
      = ?n div nat batch_size + (if ?n mod nat batch_size = 0 then 0 else 1)"
  proof (cases "items ?bn = []")
    case True
    with worker_get_cases(1) [OF invn qn] itn bn show ?thesis by simp
  next
    case False
    then have "length (items ?bn) \<noteq> 0" by simp
    with itn have "?n mod nat batch_size \<noteq> 0" by simp
    with worker_get_cases(2) [OF invn qn False] bn show ?thesis by simp
  qed
  ultimately show ?thesis
    by (simp add: calls_def ceiling_batches [OF assms])
qed

lemma requests_in_order:
  "concat (calls (run batch_size predict evs))
     @ map fst (items (run batch_size predict evs) @ queue (run batch_size predict evs))
   = submitted evs"
proof -
  from inv_run [of batch_size predict evs]
  have "all_requests (run batch_size predict evs)
      = zip (submitted evs) [0..<length (submitted evs)]"
    by (simp add: batcher_inv_def)
  then have "map fst (all_requests (run batch_size predict evs)) = submitted evs"
    by simp
  then show ?thesis
    by (simp add: all_requests_def calls_def map_concat)
qed

lemmas run_eval = run_def batcher_step_def submit_def worker_get_def queue_get_def
  dispatch_batch_def process_batch_def fail_batch_def set_exception_def set_result_def
  is_done_def new_batcher_def Let_def

text \<open>
  C6. No batch passed to \<open>predict_func\<close> is empty, and for a positive batch size
  (the analyzer uses the default, 8) no batch holds more requests than the batch size.
\<close>

theorem batches_nonempty_and_bounded:
  "(\<forall>texts \<in> set (calls (run batch_size predict evs)). texts \<noteq> [])
   \<and> (1 \<le> batch_size \<longrightarrow>
        (\<forall>texts \<in> set (calls (run batch_size predict evs)). int (length texts) \<le> batch_size))"
  using inv_run [of batch_size predict evs]
  by (auto simp: batcher_inv_def calls_def)

theorem batches_nonempty_and_bounded_witness:
  "calls (run 2 analyzer_predict_func (three_requests @ [Get, Get, Get, Get]))
       = [[''great product'', ''terrible''], [''ok'']]
   \<and> list_all (\<lambda>texts. texts \<noteq> [] \<and> int (length texts) \<le> 2)
       (calls (run 2 analyzer_predict_func (three_requests @ [Get, Get, Get, Get])))"
proof -
  have one: "(1::int) \<le> 2" by simp
  have p: "analyzer_predict_func k texts = Inr (map convert (map (\<lambda>t. if t = ''great product'' then \<lparr>label = ''Positive'', score = 9/10\<rparr>
                     else \<lparr>label = ''NEUTRAL'', score = 1/2\<rparr>) texts))" for k texts
    by (simp add: analyzer_predict_func_def predict_batch_def serving_analyzer_def
        fine_tuned_env_def sample_invoke_def)
  have b: "calls (run 2 analyzer_predict_func (three_requests @ [Get, Get, Get, Get]))
       = [[''great product'', ''terrible''], [''ok'']]"
    by (simp add: run_eval p three_requests_def calls_def)
  from batches_nonempty_and_bounded [of 2 analyzer_predict_func "three_requests @ [Get, Get, Get, Get]"] one
  have "list_all (\<lambda>texts. texts \<noteq> [] \<and> int (length texts) \<le> 2)
       (calls (run 2 analyzer_predict_func (three_requests @ [Get, Get, Get, Get])))"
    unfolding list_all_iff by blast
  with b show ?thesis by blast
qed

text \<open>
  C4. When \<open>predict_func\<close> raises for a batch, the future of every request of that
  batch is completed with that exception, exactly once, so none of them holds a
  result.
\<close>

theorem failed_batch_fails_every_request:
  assumes "k < length (batches (run batch_size predict evs))"
    and "predict k (calls (run batch_size predict evs) ! k) = Inl e"
    and "(t, f) \<in> set (batches (run batch_size predict evs) ! k)"
  shows "await_future (run batch_size predict evs) f = Some (Inl e)
       \<and> completions (store (run batch_size predict evs)) f = 1"
  using batch_failed [OF inv_run assms(1) _ assms(3), of e] assms(1,2)
  by (simp add: calls_def)

theorem failed_batch_fails_every_request_witness:
  "await_future (run 8 unloaded_predict_func [Submit ''ok'', Get, Get]) 0
     = Some (Inl (RuntimeError ''Model is not loaded.''))
   \<and> completions (store (run 8 unloaded_predict_func [Submit ''ok'', Get, Get])) 0 = 1"
proof -
  have p: "unloaded_predict_func k texts = Inl (RuntimeError ''Model is not loaded.'')" for k texts
    by (simp add: unloaded_predict_func_def predict_batch_def new_analyzer_def)
  have b: "batches (run 8 unloaded_predict_func [Submit ''ok'', Get, Get]) = [[(''ok'', 0)]]"
    by (simp add: run_eval p)
  have k: "0 < length (batches (run 8 unloaded_predict_func [Submit ''ok'', Get, Get]))"
    by (simp add: b)
  have m: "(''ok'', 0) \<in> set (batches (run 8 unloaded_predict_func [Submit ''ok'', Get, Get]) ! 0)"
    by (simp add: b)
  from failed_batch_fails_every_request [OF k p m] show ?thesis .
qed

text \<open>
  C5. For a positive batch size: the batches passed to \<open>predict_func\<close>, one after the
  other, followed by the requests still collected or queued, are the submitted texts
  in the order of submission, so each batch is a contiguous slice of them; no batch is
  longer than the batch size; requests that are all on the queue before the worker
  looks give as many calls as the number of requests divided by the batch size,
  rounded up; and in a batch that succeeds the result at a position goes to the future
  of the request at that position.
\<close>

theorem batches_are_fifo_slices:
  assumes "1 \<le> batch_size"
  shows "concat (calls (run batch_size predict evs))
           @ map fst (items (run batch_size predict evs) @ queue (run batch_size predict evs))
         = submitted evs
     \<and> (\<forall>texts \<in> set (calls (run batch_size predict evs)). int (length texts) \<le> batch_size)
     \<and> length (calls (run batch_size predict
             (map Submit texts @ replicate (Suc (length texts)) Get)))
         = nat \<lceil>real (length texts) / real_of_int batch_size\<rceil>
     \<and> (\<forall>k i results.
           k < length (batches (run batch_size predict evs))
         \<and> predict k (calls (run batch_size predict evs) ! k) = Inr results
         \<and> i < length (batches (run batch_size predict evs) ! k) \<and> i < length results
         \<longrightarrow> await_future (run batch_size predict evs)
               (snd (batches (run batch_size predict evs) ! k ! i))
             = Some (Inr (results ! i)))"
proof -
  let ?b = "run batch_size predict evs"
  note inv = inv_run [of batch_size predict evs]
  have a: "\<forall>texts \<in> set (calls ?b). int (length texts) \<le> batch_size"
    using inv assms by (auto simp: batcher_inv_def calls_def)
  have d: "await_future ?b (snd (batches ?b ! k ! i)) = Some (Inr (results ! i))"
    if "k < length (batches ?b)" "predict k (calls ?b ! k) = Inr results"
      "i < length (batches ?b ! k)" "i < length results" for k i results
    using batch_succeeded(1) [OF inv that(1) _ that(3,4)] that(1,2)
    by (simp add: calls_def)
  from requests_in_order [of batch_size predict evs] a
    simultaneous_count [OF assms, of predict texts] d
  show ?thesis by blast
qed

theorem batches_are_fifo_slices_witness:
  "length (calls (run 2 analyzer_predict_func
       (map Submit [''great product'', ''terrible'', ''ok'']
          @ replicate (Suc (length [''great product'', ''terrible'', ''ok''])) Get))) = 2
   \<and> calls (run 2 analyzer_predict_func (three_requests @ [Get, Get, Get, Get]))
       = [[''great product'', ''terrible''], [''ok'']]"
proof -
  have one: "(1::int) \<le> 2" by simp
  have "nat \<lceil>real (length [''great product'', ''terrible'', ''ok'']) / real_of_int 2\<rceil> = 2"
    by simp
  with batches_are_fifo_slices [OF one, of analyzer_predict_func "[]" "[''great product'', ''terrible'', ''ok'']"]
  have a: "length (calls (run 2 analyzer_predict_func
       (map Submit [''great product'', ''terrible'', ''ok'']
          @ replicate (Suc (length [''great product'', ''terrible'', ''ok''])) Get))) = 2"
    by (simp only:)
  have p: "analyzer_predict_func k texts = Inr (map convert (map (\<lambda>t. if t = ''great product'' then \<lparr>label = ''Positive'', score = 9/10\<rparr>
                     else \<lparr>label = ''NEUTRAL'', score = 1/2\<rparr>) texts))" for k texts
    by (simp add: analyzer_predict_func_def predict_batch_def serving_analyzer_def
        fine_tuned_env_def sample_invoke_def)
  have b: "calls (run 2 analyzer_predict_func (three_requests @ [Get, Get, Get, Get]))
       = [[''great product'', ''terrible''], [''ok'']]"
    by (simp add: run_eval p three_requests_def calls_def)
  from a b show ?thesis by blast
qed

text \<open>
  C3, with the condition it needs. Provided \<open>predict_func\<close> returns at least one
  result for each text, in every run the worker thread stays alive and no future is
  ever completed twice; and once the worker has made as many further \<open>get\<close> calls as
  the queue holds requests, and one more, every request submitted has had its future
  completed exactly once: with the exception of its batch when \<open>predict_func\<close> raised,
  and with the result at its position in the batch otherwise.
\<close>

theorem every_future_completed_once:
  assumes contract:
    "\<forall>k texts results. predict k texts = Inr results \<longrightarrow> length texts \<le> length results"
  shows "crashed (run batch_size predict evs) = None
     \<and> (\<forall>f. completions (store (run batch_size predict evs)) f \<le> 1)
     \<and> (\<forall>f < length (submitted evs).
          completions (store (run batch_size predict
             (evs @ replicate (Suc (length (queue (run batch_size predict evs)))) Get))) f = 1
        \<and> (\<exists>k i.
             k < length (batches (run batch_size predict
                 (evs @ replicate (Suc (length (queue (run batch_size predict evs)))) Get)))
           \<and> i < length (batches (run batch_size predict
                 (evs @ replicate (Suc (length (queue (run batch_size predict evs)))) Get)) ! k)
           \<and> snd (batches (run batch_size predict
                 (evs @ replicate (Suc (length (queue (run batch_size predict evs)))) Get)) ! k ! i) = f
           \<and> await_future (run batch_size predict
                 (evs @ replicate (Suc (length (queue (run batch_size predict evs)))) Get)) f
               = Some (case predict k (calls (run batch_size predict
                   (evs @ replicate (Suc (length (queue (run batch_size predict evs)))) Get)) ! k) of
                         Inl e \<Rightarrow> Inl e
                       | Inr results \<Rightarrow> Inr (results ! i))))"
proof -
  let ?b = "run batch_size predict evs"
  let ?texts = "submitted evs"
  define b' where "b' = run batch_size predict (evs @ replicate (Suc (length (queue ?b))) Get)"
  note inv = inv_run [of batch_size predict evs]
  have alive: "crashed ?b = None"
    using inv by (simp add: batcher_inv_def)
  have once: "completions (store ?b) f \<le> 1" for f
    by (simp add: completions_distinct [OF inv_store_distinct [OF inv]])
  have b': "b' = (worker_get batch_size predict ^^ Suc (length (queue ?b))) ?b"
    unfolding b'_def by (rule run_then_gets)
  from drain [OF inv refl]
  have q': "queue b' = []" and i': "items b' = []"
    and inv': "batcher_inv batch_size predict ?texts b'"
    unfolding b' by simp_all
  from inv' have "all_requests b' = zip ?texts [0..<length ?texts]"
    by (simp add: batcher_inv_def)
  then have all: "concat (batches b') = zip ?texts [0..<length ?texts]"
    by (simp add: all_requests_def q' i')
  have each: "completions (store b') f = 1
        \<and> (\<exists>k i. k < length (batches b') \<and> i < length (batches b' ! k)
           \<and> snd (batches b' ! k ! i) = f
           \<and> await_future b' f
               = Some (case predict k (calls b' ! k) of
                         Inl e \<Rightarrow> Inl e
                       | Inr results \<Rightarrow> Inr (results ! i)))"
    if f: "f < length ?texts" for f
  proof -
    have "zip ?texts [0..<length ?texts] ! f = (?texts ! f, f)"
      using f by simp
    moreover have "f < length (zip ?texts [0..<length ?texts])" using f by simp
    ultimately have "(?texts ! f, f) \<in> set (zip ?texts [0..<length ?texts])"
      by (metis nth_mem)
    then have "(?texts ! f, f) \<in> set (concat (batches b'))"
      by (simp only: all)
    then obtain batch where "batch \<in> set (batches b')" and "(?texts ! f, f) \<in> set batch"
      by auto
    then obtain k i where k: "k < length (batches b')" and bk: "batches b' ! k = batch"
      and i: "i < length batch" and bi: "batch ! i = (?texts ! f, f)"
      by (metis in_set_conv_nth)
    have i2: "i < length (batches b' ! k)" and f2: "snd (batches b' ! k ! i) = f"
      using bk i bi by simp_all
    have c: "calls b' ! k = map fst (batches b' ! k)"
      using k by (simp add: calls_def)
    have "completions (store b') f = 1
        \<and> await_future b' f
            = Some (case predict k (calls b' ! k) of
                      Inl e \<Rightarrow> Inl e
                    | Inr results \<Rightarrow> Inr (results ! i))"
    proof (cases "predict k (map fst (batches b' ! k))")
      case (Inl e)
      have "(?texts ! f, f) \<in> set (batches b' ! k)"
        using bk i bi by (metis nth_mem)
      from batch_failed [OF inv' k Inl this] Inl show ?thesis
        by (simp add: c)
    next
      case (Inr results)
      with contract have "length (map fst (batches b' ! k)) \<le> length results"
        by blast
      with i2 have "i < length results" by simp
      from batch_succeeded [OF inv' k Inr i2 this] Inr show ?thesis
        by (simp add: c f2)
    qed
    with k i2 f2 show ?thesis by blast
  qed
  from alive once each show ?thesis unfolding b'_def by blast
qed

theorem every_future_completed_once_witness:
  "crashed (run 8 analyzer_predict_func three_requests) = None
   \<and> completions (store (run 8 analyzer_predict_func
        (three_requests
           @ replicate (Suc (length (queue (run 8 analyzer_predict_func three_requests)))) Get))) 2
     = 1"
proof -
  have contract: "\<forall>k texts results. analyzer_predict_func k texts = Inr results
      \<longrightarrow> length texts \<le> length results"
    by (auto simp: analyzer_predict_func_def predict_batch_def serving_analyzer_def
        fine_tuned_env_def sample_invoke_def)
  have "2 < length (submitted three_requests)"
    by (simp add: three_requests_def)
  with every_future_completed_once [OF contract, of 8 three_requests] show ?thesis by blast
qed

text \<open>
  C3, as it is written, holds of no \<open>predict_func\<close> that returns fewer results than
  texts: \<open>zip\<close> on line 74 stops at the shorter list. Here two requests form one batch,
  \<open>predict_func\<close> returns one result, the first future receives it, and the second
  stays pending, whatever the worker does afterwards.
\<close>

theorem short_answer_leaves_future_pending:
  "batches (run 8 short_predict two_requests) = [[(''great product'', 0), (''ok'', 1)]]
   \<and> queue (run 8 short_predict two_requests) = []
   \<and> items (run 8 short_predict two_requests) = []
   \<and> crashed (run 8 short_predict two_requests) = None
   \<and> await_future (run 8 short_predict two_requests) 0
       = Some (Inr \<lparr>label = ''positive'', score = 1\<rparr>)
   \<and> await_future (run 8 short_predict two_requests) 1 = None
   \<and> completions (store (run 8 short_predict two_requests)) 1 = 0
   \<and> run 8 short_predict (two_requests @ [Get]) = run 8 short_predict two_requests"
proof -
  have r: "run 8 short_predict two_requests =
      \<lparr>queue = [], next_future = 2, items = [],
       batches = [[(''great product'', 0), (''ok'', 1)]],
       store = [(0, Result \<lparr>label = ''positive'', score = 1\<rparr>)],
       wlogged = [], crashed = None\<rparr>"
    by (simp add: run_eval two_requests_def short_predict_def)
  have g: "run 8 short_predict (two_requests @ [Get])
      = worker_get 8 short_predict (run 8 short_predict two_requests)"
    by (simp add: run_snoc batcher_step_def)
  show ?thesis
    unfolding g unfolding r
    by (simp add: await_future_def completions_def worker_get_def queue_get_def)
qed

end
